theory Spec2Isabelle
  imports Main "HOL-Library.Word"
begin

section \<open>The allocator of malloc.c, embedded\<close>

text \<open>
  The model is the LP64, little-endian reading of \<^verbatim>\<open>src/malloc.c\<close>: \<^verbatim>\<open>size_t\<close> and
  pointers are 64-bit words, \<^verbatim>\<open>int\<close> is a 32-bit word, and \<^verbatim>\<open>sizeof(BlockHeader)\<close> is 24
  (8 bytes of \<^verbatim>\<open>size\<close>, 4 of \<^verbatim>\<open>free\<close>, 4 of padding, 8 of \<^verbatim>\<open>next\<close>).
  Word arithmetic wraps around, as unsigned arithmetic does in C.
\<close>

type_synonym addr = "64 word"

abbreviation CHUNKSIZE :: "64 word" where "CHUNKSIZE \<equiv> 65536"
abbreviation BUSDIV :: "64 word" where "BUSDIV \<equiv> 16"
abbreviation HEADERSIZE :: "64 word" where "HEADERSIZE \<equiv> 24"

subsection \<open>Memory\<close>

text \<open>
  One byte-addressed memory holds the headers and the data alike, so a store through one
  pointer changes what every overlapping object reads. Addresses wrap around at \<open>2^64\<close>.
  \<open>load_bytes m a n\<close> reads the \<open>n\<close> bytes from \<open>a\<close> on as a little-endian number and
  \<open>store_bytes m a n v\<close> writes the \<open>n\<close> low bytes of \<open>v\<close> there.
\<close>

type_synonym memory = "addr \<Rightarrow> 8 word"

fun load_bytes :: "memory \<Rightarrow> addr \<Rightarrow> nat \<Rightarrow> nat" where
  "load_bytes m a 0 = 0"
| "load_bytes m a (Suc n) = unat (m a) + 256 * load_bytes m (a + 1) n"

fun store_bytes :: "memory \<Rightarrow> addr \<Rightarrow> nat \<Rightarrow> nat \<Rightarrow> memory" where
  "store_bytes m a 0 v = m"
| "store_bytes m a (Suc n) v = store_bytes (m(a := of_nat (v mod 256))) (a + 1) n (v div 256)"

definition load64 :: "memory \<Rightarrow> addr \<Rightarrow> 64 word" where
  "load64 m a = of_nat (load_bytes m a 8)"

definition load32 :: "memory \<Rightarrow> addr \<Rightarrow> 32 word" where
  "load32 m a = of_nat (load_bytes m a 4)"

definition store64 :: "memory \<Rightarrow> addr \<Rightarrow> 64 word \<Rightarrow> memory" where
  "store64 m a v = store_bytes m a 8 (unat v)"

definition store32 :: "memory \<Rightarrow> addr \<Rightarrow> 32 word \<Rightarrow> memory" where
  "store32 m a v = store_bytes m a 4 (unat v)"

text \<open>
  \<^verbatim>\<open>struct BlockHeader\<close> (lines 11-15) as a value, and as it lies in memory: \<^verbatim>\<open>size\<close> at
  offset 0, \<^verbatim>\<open>free\<close> at offset 8, \<^verbatim>\<open>next\<close> at offset 16. \<open>hdr m b\<close> is what the fields of
  the header at address \<open>b\<close> read; \<open>set_size\<close>, \<open>set_free\<close> and \<open>set_next\<close> are the stores
  \<^verbatim>\<open>b->size = v\<close>, \<^verbatim>\<open>b->free = v\<close> and \<^verbatim>\<open>b->next = v\<close>.
\<close>

record BlockHeader =
  size_f :: "64 word"
  free_f :: "32 word"
  next_f :: addr

definition hdr :: "memory \<Rightarrow> addr \<Rightarrow> BlockHeader" where
  "hdr m b = \<lparr>size_f = load64 m b, free_f = load32 m (b + 8), next_f = load64 m (b + 16)\<rparr>"

definition set_size :: "memory \<Rightarrow> addr \<Rightarrow> 64 word \<Rightarrow> memory" where
  "set_size m b v = store64 m b v"

definition set_free :: "memory \<Rightarrow> addr \<Rightarrow> 32 word \<Rightarrow> memory" where
  "set_free m b v = store32 m (b + 8) v"

definition set_next :: "memory \<Rightarrow> addr \<Rightarrow> addr \<Rightarrow> memory" where
  "set_next m b v = store64 m (b + 16) v"

text \<open>\<open>apart a b\<close>: the headers at \<open>a\<close> and \<open>b\<close> share no byte. \<open>zero_range m p n\<close>: the
  \<open>n\<close> bytes from \<open>p\<close> on are zero.\<close>

definition apart :: "addr \<Rightarrow> addr \<Rightarrow> bool" where
  "apart a b \<longleftrightarrow> 24 \<le> unat (b - a) \<and> 24 \<le> unat (a - b)"

definition zero_range :: "memory \<Rightarrow> addr \<Rightarrow> 64 word \<Rightarrow> bool" where
  "zero_range m p n \<longleftrightarrow> (\<forall>x. x - p < n \<longrightarrow> m x = 0)"

text \<open>
  The allocator's three globals, the operating system's side of \<^verbatim>\<open>sbrk\<close> (the program
  break \<open>brk\<close> and the range \<open>[brk_lo, brk_hi]\<close> it may move in), and the memory.
\<close>

record allocator =
  BlockBase :: addr
  CurrentTopBreak :: "64 word"
  CurrentFreeSpace :: "64 word"
  brk :: addr
  brk_lo :: addr
  brk_hi :: addr
  mem :: memory

abbreviation hdrs :: "allocator \<Rightarrow> addr \<Rightarrow> BlockHeader" where
  "hdrs s \<equiv> hdr (mem s)"

text \<open>
  What a call does besides returning: \<open>Fault\<close> is a store through the null pointer that
  \<^verbatim>\<open>GetBlock\<close> or \<^verbatim>\<open>malloc\<close> handed back on failure; a call that never returns is
  \<open>None\<close> one level further out.
\<close>

datatype 'a outcome = Fault | Ret 'a

subsection \<open>The alignment loops\<close>

text \<open>\<^verbatim>\<open>while (x % BUSDIV != 0) x++;\<close> (lines 35, 41 and 182). The counter is unsigned, so
  the loop also stops after wrapping to 0.\<close>

function align_up :: "64 word \<Rightarrow> 64 word" where
  "align_up x = (if x mod BUSDIV \<noteq> 0 then align_up (x + 1) else x)"
  by pat_completeness auto
termination
proof (relation "measure (\<lambda>x. (16 - unat x mod 16) mod 16)")
  show "wf (measure (\<lambda>x :: 64 word. (16 - unat x mod 16) mod 16))" by simp
next
  fix x :: "64 word"
  assume a: "x mod BUSDIV \<noteq> 0"
  define r where "r = unat x mod 16"
  have "unat (x mod 16) \<noteq> 0" using a by (simp only: unat_eq_0 not_False_eq_True)
  then have r0: "r \<noteq> 0" by (simp add: r_def unat_mod)
  have r16: "r < 16" by (simp add: r_def)
  have "unat (x + 1) = (unat x + 1) mod 2 ^ 64"
    by (simp add: unat_word_ariths)
  moreover have "(16::nat) dvd 2 ^ 64" by simp
  ultimately have "unat (x + 1) mod 16 = Suc (unat x) mod 16"
    by (simp add: mod_mod_cancel)
  also have "\<dots> = (if Suc r = 16 then 0 else Suc r)"
    unfolding r_def by (rule mod_Suc)
  finally have s: "unat (x + 1) mod 16 = (if Suc r = 16 then 0 else Suc r)" .
  have "(16 - (if Suc r = 16 then 0 else Suc r)) mod 16 < (16 - r) mod 16"
    using r0 r16 by (cases "Suc r = 16") auto
  then show "(x + 1, x) \<in> measure (\<lambda>x. (16 - unat x mod 16) mod 16)"
    unfolding in_measure s r_def[symmetric] .
qed

text \<open>\<^verbatim>\<open>while (startAddr % BUSDIV != 0) startAddr--;\<close> (line 208).\<close>

function align_down :: "64 word \<Rightarrow> 64 word" where
  "align_down x = (if x mod BUSDIV \<noteq> 0 then align_down (x - 1) else x)"
  by pat_completeness auto
termination
proof (relation "measure (\<lambda>x. unat x mod 16)")
  show "wf (measure (\<lambda>x :: 64 word. unat x mod 16))" by simp
next
  fix x :: "64 word"
  assume a: "x mod BUSDIV \<noteq> 0"
  have "unat (x mod 16) \<noteq> 0" using a by (simp only: unat_eq_0 not_False_eq_True)
  then have r0: "unat x mod 16 \<noteq> 0" by (simp add: unat_mod)
  then obtain m where m: "unat x = Suc m" by (cases "unat x") auto
  define r where "r = m mod 16"
  have "x \<noteq> 0"
  proof
    assume "x = 0"
    with a show False by simp
  qed
  then have p: "unat (x - 1) = m" by (simp add: unat_minus_one m)
  have "Suc m mod 16 = (if Suc r = 16 then 0 else Suc r)"
    unfolding r_def by (rule mod_Suc)
  with r0 m have "unat x mod 16 = Suc r" by (auto split: if_splits)
  then show "(x - 1, x) \<in> measure (\<lambda>x. unat x mod 16)"
    unfolding in_measure p r_def[symmetric] by (simp only: lessI)
qed

declare align_up.simps [simp del] align_down.simps [simp del]

subsection \<open>The break\<close>

text \<open>
  Modelled from the spec: the address-space extension primitive \<^verbatim>\<open>sbrk\<close>, which is not
  under src/. \<open>sbrk s 0\<close> is the query and returns the break; any other increment is read
  as the signed \<^verbatim>\<open>intptr_t\<close> it is passed as, moves the break when the new break stays
  in \<open>[brk_lo, brk_hi]\<close> (\<open>sbrk_fits\<close>) and returns the old one, and otherwise fails
  with \<open>-1\<close>, leaving the break where it was.
\<close>

definition sbrk_fits :: "allocator \<Rightarrow> 64 word \<Rightarrow> bool" where
  "sbrk_fits s increment \<longleftrightarrow>
     uint (brk_lo s) \<le> uint (brk s) + sint increment
     \<and> uint (brk s) + sint increment \<le> uint (brk_hi s)"

definition sbrk :: "allocator \<Rightarrow> 64 word \<Rightarrow> allocator \<times> 64 word" where
  "sbrk s increment =
     (if increment = 0 then (s, brk s)
      else if sbrk_fits s increment then (s\<lparr>brk := brk s + increment\<rparr>, brk s)
      else (s, - 1))"

text \<open>Lines 33-43 of \<^verbatim>\<open>GetBlock\<close>: the header size, then header plus content, each
  rounded up.\<close>

definition GetBlock_blockSize :: "64 word \<Rightarrow> 64 word" where
  "GetBlock_blockSize sz =
     (let blockHeaderSize = align_up HEADERSIZE in align_up (sz + blockHeaderSize))"

text \<open>Lines 66-106 of \<^verbatim>\<open>GetBlock\<close>: the two branches differ only in what they pass to
  \<^verbatim>\<open>sbrk\<close> and subtract from the new top, which is this amount.\<close>

definition GetBlock_amount :: "64 word \<Rightarrow> 64 word" where
  "GetBlock_amount sz =
     (if CHUNKSIZE < GetBlock_blockSize sz then GetBlock_blockSize sz else CHUNKSIZE)"

text \<open>Lines 109-121 of \<^verbatim>\<open>GetBlock\<close>: the header is laid down at \<open>CurrentFreeSpace\<close>, after
  the store to \<^verbatim>\<open>last->next\<close>.\<close>

definition GetBlock_carve :: "allocator \<Rightarrow> addr \<Rightarrow> 64 word \<Rightarrow> allocator \<times> addr" where
  "GetBlock_carve s last_b sz =
     (let block = CurrentFreeSpace s;
          m1 = (if last_b \<noteq> 0 then set_next (mem s) last_b block else mem s);
          m2 = set_size m1 block sz;
          m3 = set_next m2 block 0;
          m4 = set_free m3 block 0
      in (s\<lparr>mem := m4\<rparr>, block))"

text \<open>
  \<^verbatim>\<open>GetBlock\<close> (lines 27-122). A null result is the failure return; \<^verbatim>\<open>errno\<close> and the
  message on stderr are left out.
\<close>

definition GetBlock :: "allocator \<Rightarrow> addr \<Rightarrow> 64 word \<Rightarrow> allocator \<times> addr" where
  "GetBlock s last_b sz =
     (let blockSize = GetBlock_blockSize sz;
          sbrkResult = snd (sbrk s 0)
      in if sbrkResult = - 1 then (s, 0)
         else
           let nextBreak = sbrkResult + blockSize in
           if CurrentTopBreak s = 0 \<or> CurrentTopBreak s < nextBreak
           then
             let amount = GetBlock_amount sz;
                 s1 = fst (sbrk s amount)
             in if snd (sbrk s amount) = - 1 then (s1, 0)
                else if snd (sbrk s1 0) = - 1 then (s1, 0)
                else GetBlock_carve
                       (s1\<lparr>CurrentTopBreak := snd (sbrk s1 0),
                           CurrentFreeSpace := snd (sbrk s1 0) - amount\<rparr>) last_b sz
           else GetBlock_carve s last_b sz)"

subsection \<open>The search for a free block\<close>

text \<open>
  The loop of \<^verbatim>\<open>FindFreeBlock\<close> (lines 133-136), with \<^verbatim>\<open>*last\<close> carried along. It follows
  \<^verbatim>\<open>next\<close> pointers until it meets null or a fitting free block, so on a cyclic chain
  with no fitting block it never returns: that is the value \<open>None\<close>.
\<close>

partial_function (option) FindFreeBlock_loop ::
  "(addr \<Rightarrow> BlockHeader) \<Rightarrow> 64 word \<Rightarrow> addr \<Rightarrow> addr \<Rightarrow> (addr \<times> addr) option" where
  "FindFreeBlock_loop h sz last_b linkBlock =
     (if linkBlock \<noteq> 0 \<and> \<not> (free_f (h linkBlock) \<noteq> 0 \<and> sz \<le> size_f (h linkBlock))
      then FindFreeBlock_loop h sz linkBlock (next_f (h linkBlock))
      else Some (last_b, linkBlock))"

declare FindFreeBlock_loop.simps [code]

text \<open>\<^verbatim>\<open>FindFreeBlock\<close> (lines 127-138): the result is \<open>(*last, linkBlock)\<close>.\<close>

definition FindFreeBlock :: "allocator \<Rightarrow> addr \<Rightarrow> 64 word \<Rightarrow> (addr \<times> addr) option" where
  "FindFreeBlock s last_b sz = FindFreeBlock_loop (hdrs s) sz last_b (BlockBase s)"

subsection \<open>The four public operations\<close>

text \<open>Lines 152-178 of \<^verbatim>\<open>malloc\<close>: the state and the block the call settles on, null on
  failure.\<close>

definition malloc_block :: "allocator \<Rightarrow> 64 word \<Rightarrow> (allocator \<times> addr) option" where
  "malloc_block s sz =
     (if BlockBase s = 0
      then (let (s1, block) = GetBlock s 0 sz
            in if block = 0 then Some (s1, 0) else Some (s1\<lparr>BlockBase := block\<rparr>, block))
      else (case FindFreeBlock s (BlockBase s) sz of
              None \<Rightarrow> None
            | Some (last_b, block) \<Rightarrow>
                if block = 0 then Some (GetBlock s last_b sz)
                else Some (s\<lparr>mem := set_free (mem s) block 0\<rparr>, block)))"

text \<open>Lines 180-184 of \<^verbatim>\<open>malloc\<close>: \<^verbatim>\<open>(size_t)(block + 1)\<close>, rounded up.\<close>

definition dataStart :: "addr \<Rightarrow> addr" where
  "dataStart block = align_up (block + HEADERSIZE)"

text \<open>\<^verbatim>\<open>malloc\<close> (lines 143-195), with \<^verbatim>\<open>DEBUG_MALLOC\<close> unset.\<close>

definition malloc :: "allocator \<Rightarrow> 64 word \<Rightarrow> (allocator \<times> addr) outcome option" where
  "malloc s sz =
     (if sz = 0 then Some (Ret (s, 0))
      else (case malloc_block s sz of
              None \<Rightarrow> None
            | Some (s1, block) \<Rightarrow>
                if block = 0 then Some (Ret (s1, 0)) else Some (Ret (s1, dataStart block))))"

text \<open>\<^verbatim>\<open>GetBlockHeader\<close> (lines 198-214): \<^verbatim>\<open>headerPtr -= 1\<close> steps back 24 bytes.\<close>

definition GetBlockHeader :: "addr \<Rightarrow> addr" where
  "GetBlockHeader ptr = align_down (ptr - HEADERSIZE)"

text \<open>\<^verbatim>\<open>free\<close> (lines 217-232): the store \<^verbatim>\<open>blockStart->free = 1\<close> writes the four bytes
  from \<open>blockStart + 8\<close> on, whatever lies there.\<close>

definition free :: "allocator \<Rightarrow> addr \<Rightarrow> allocator" where
  "free s ptr =
     (if ptr = 0 then s
      else let blockStart = GetBlockHeader ptr
           in s\<lparr>mem := set_free (mem s) blockStart 1\<rparr>)"

text \<open>\<^verbatim>\<open>memcpy\<close> and \<^verbatim>\<open>memset\<close>; \<open>a - dst < n\<close> says that \<open>a\<close> is one of the \<open>n\<close> bytes
  from \<open>dst\<close> on. \<^verbatim>\<open>memcpy\<close> reads the source as it was before the call.\<close>

definition memcpy :: "memory \<Rightarrow> addr \<Rightarrow> addr \<Rightarrow> 64 word \<Rightarrow> memory" where
  "memcpy m dst src n = (\<lambda>a. if a - dst < n then m (src + (a - dst)) else m a)"

definition memset :: "memory \<Rightarrow> addr \<Rightarrow> 8 word \<Rightarrow> 64 word \<Rightarrow> memory" where
  "memset m dst c n = (\<lambda>a. if a - dst < n then c else m a)"

text \<open>
  Lines 272-277 of \<^verbatim>\<open>realloc\<close>, the test of line 272 first. \<open>spaceNeeded\<close> is an
  \<^verbatim>\<open>int\<close>; in the comparison and the subtraction with \<^verbatim>\<open>HEADERSIZE\<close> it is converted to
  \<^verbatim>\<open>size_t\<close>, which sign-extends; \<^verbatim>\<open>spaceNeeded * -1\<close> wraps at \<^verbatim>\<open>INT_MIN\<close>. The
  result of \<^verbatim>\<open>GetBlock\<close> is not checked before the store through it. Line 275 reads
  \<^verbatim>\<open>blockHeader->next\<close> from the memory \<^verbatim>\<open>GetBlock\<close> left.
\<close>

definition realloc_shrinks :: "32 word \<Rightarrow> bool" where
  "realloc_shrinks spaceNeeded \<longleftrightarrow>
     sint spaceNeeded < 0 \<and> HEADERSIZE < scast (spaceNeeded * (- 1))"

definition realloc_shrink :: "allocator \<Rightarrow> addr \<Rightarrow> 32 word \<Rightarrow> allocator outcome" where
  "realloc_shrink s blockHeader spaceNeeded =
     (if realloc_shrinks spaceNeeded
      then
        let shrinkSize = scast (spaceNeeded * (- 1)) - HEADERSIZE;
            (s1, shrinkHeader) = GetBlock s blockHeader shrinkSize
        in if shrinkHeader = 0 then Fault
           else
             let m1 = mem s1;
                 m2 = set_next m1 shrinkHeader (next_f (hdr m1 blockHeader));
                 m3 = set_next m2 blockHeader shrinkHeader
             in Ret (s1\<lparr>mem := m3\<rparr>)
      else Ret s)"

text \<open>
  \<^verbatim>\<open>realloc\<close> (lines 237-308), with \<^verbatim>\<open>DEBUG_MALLOC\<close> unset. \<^verbatim>\<open>blockFreeSpace\<close> is
  assigned only when the block has a successor; \<open>junk\<close> is the indeterminate value the
  variable holds otherwise. \<^verbatim>\<open>blockSize\<close> and \<^verbatim>\<open>spaceNeeded\<close> are \<^verbatim>\<open>int\<close>: the
  \<^verbatim>\<open>size_t\<close> values are truncated on assignment and sign-extended where they meet a
  \<^verbatim>\<open>size_t\<close> again. The result of \<^verbatim>\<open>malloc\<close> is not checked before \<^verbatim>\<open>memcpy\<close>.
\<close>

definition realloc ::
  "allocator \<Rightarrow> 64 word \<Rightarrow> addr \<Rightarrow> 64 word \<Rightarrow> (allocator \<times> addr) outcome option" where
  "realloc s junk ptr sz =
     (if ptr = 0 then malloc s sz
      else if sz = 0 then Some (Ret (free s ptr, 0))
      else
        let blockHeader = GetBlockHeader ptr;
            blockSize = (ucast (HEADERSIZE + size_f (hdrs s blockHeader)) :: 32 word);
            blockEnd = blockHeader + scast blockSize;
            blockFreeSpace =
              (if next_f (hdrs s blockHeader) \<noteq> 0
               then next_f (hdrs s blockHeader) - blockEnd else junk);
            spaceNeeded = (ucast (sz - size_f (hdrs s blockHeader)) :: 32 word)
        in case realloc_shrink s blockHeader spaceNeeded of
             Fault \<Rightarrow> Some Fault
           | Ret s1 \<Rightarrow>
               if (next_f (hdrs s1 blockHeader) = 0 \<and> CurrentFreeSpace s1 < scast spaceNeeded)
                  \<or> scast spaceNeeded \<le> blockFreeSpace
               then Some (Ret (s1\<lparr>mem := set_size (mem s1) blockHeader sz\<rparr>, ptr))
               else (case malloc s1 sz of
                       None \<Rightarrow> None
                     | Some Fault \<Rightarrow> Some Fault
                     | Some (Ret (s2, newHeader)) \<Rightarrow>
                         if newHeader = 0 \<and> size_f (hdrs s2 blockHeader) \<noteq> 0 then Some Fault
                         else Some (Ret (free (s2\<lparr>mem := memcpy (mem s2) newHeader ptr
                                                   (size_f (hdrs s2 blockHeader))\<rparr>) ptr,
                                         newHeader))))"

text \<open>\<^verbatim>\<open>calloc\<close> (lines 313-330), with \<^verbatim>\<open>DEBUG_MALLOC\<close> unset. The result of \<^verbatim>\<open>malloc\<close>
  is not checked before \<^verbatim>\<open>memset\<close>.\<close>

definition calloc ::
  "allocator \<Rightarrow> 64 word \<Rightarrow> 64 word \<Rightarrow> (allocator \<times> addr) outcome option" where
  "calloc s nmemb sz =
     (let blockSize = nmemb * sz
      in case malloc s blockSize of
           None \<Rightarrow> None
         | Some Fault \<Rightarrow> Some Fault
         | Some (Ret (s1, ptr)) \<Rightarrow>
             if ptr = 0 \<and> blockSize \<noteq> 0 then Some Fault
             else Some (Ret (s1\<lparr>mem := memset (mem s1) ptr 0 blockSize\<rparr>, ptr)))"

subsection \<open>Alignment\<close>

text \<open>An address or size is aligned when the loops above leave it alone.\<close>

definition aligned :: "64 word \<Rightarrow> bool" where
  "aligned x \<longleftrightarrow> x mod BUSDIV = 0"

text \<open>\<open>reach h a b\<close>: following \<^verbatim>\<open>next\<close> from \<open>a\<close>, as the scan of \<^verbatim>\<open>FindFreeBlock\<close> does,
  comes to the header \<open>b\<close> before it comes to null.\<close>

inductive reach :: "(addr \<Rightarrow> BlockHeader) \<Rightarrow> addr \<Rightarrow> addr \<Rightarrow> bool" for h a where
  start: "a \<noteq> 0 \<Longrightarrow> reach h a a"
| step: "reach h a b \<Longrightarrow> next_f (h b) \<noteq> 0 \<Longrightarrow> reach h a (next_f (h b))"

text \<open>
  The allocator's alignment invariant: the carving address and the break are aligned, and
  so is every header that can be reached from \<^verbatim>\<open>BlockBase\<close>.
\<close>

definition aligned_heap :: "allocator \<Rightarrow> bool" where
  "aligned_heap s \<longleftrightarrow>
     aligned (CurrentFreeSpace s) \<and> aligned (brk s)
     \<and> (\<forall>b. reach (hdrs s) (BlockBase s) b \<longrightarrow> aligned b)"

subsection \<open>The block list\<close>

text \<open>\<open>chain h a bs\<close>: following \<^verbatim>\<open>next\<close> from \<open>a\<close> visits exactly the headers \<open>bs\<close>, in
  this order, and then reaches null.\<close>

fun chain :: "(addr \<Rightarrow> BlockHeader) \<Rightarrow> addr \<Rightarrow> addr list \<Rightarrow> bool" where
  "chain h a [] \<longleftrightarrow> a = 0"
| "chain h a (b # bs) \<longleftrightarrow> a \<noteq> 0 \<and> a = b \<and> chain h (next_f (h b)) bs"

text \<open>The test of line 133, and what a first-fit scan of \<open>bs\<close> finds and visits.\<close>

definition fits :: "(addr \<Rightarrow> BlockHeader) \<Rightarrow> 64 word \<Rightarrow> addr \<Rightarrow> bool" where
  "fits h sz b \<longleftrightarrow> free_f (h b) \<noteq> 0 \<and> sz \<le> size_f (h b)"

definition first_fit :: "(addr \<Rightarrow> BlockHeader) \<Rightarrow> 64 word \<Rightarrow> addr list \<Rightarrow> addr" where
  "first_fit h sz bs = (case find (fits h sz) bs of None \<Rightarrow> 0 | Some b \<Rightarrow> b)"

definition last_visited :: "(addr \<Rightarrow> BlockHeader) \<Rightarrow> 64 word \<Rightarrow> addr \<Rightarrow> addr list \<Rightarrow> addr" where
  "last_visited h sz l bs = last (l # takeWhile (\<lambda>b. \<not> fits h sz b) bs)"

text \<open>
  The list invariant of the data model: the headers from \<^verbatim>\<open>BlockBase\<close> form a finite list
  in strictly increasing address order, and a block's padded header and \<^verbatim>\<open>size\<close> bytes
  end before the next header begins (addresses as numbers, without wrap-around).
\<close>

fun no_overlap :: "(addr \<Rightarrow> BlockHeader) \<Rightarrow> addr list \<Rightarrow> bool" where
  "no_overlap h (b1 # b2 # bs) \<longleftrightarrow>
     unat b1 + unat (align_up HEADERSIZE) + unat (size_f (h b1)) \<le> unat b2
     \<and> no_overlap h (b2 # bs)"
| "no_overlap h bs \<longleftrightarrow> True"

definition block_list :: "allocator \<Rightarrow> addr list \<Rightarrow> bool" where
  "block_list s bs \<longleftrightarrow>
     chain (hdrs s) (BlockBase s) bs \<and> sorted_wrt (<) bs \<and> no_overlap (hdrs s) bs"

text \<open>Every block of the list, with its padded header and its \<^verbatim>\<open>size\<close> bytes, ends at or
  below the break.\<close>

definition within_break :: "allocator \<Rightarrow> addr list \<Rightarrow> bool" where
  "within_break s bs \<longleftrightarrow>
     (\<forall>b \<in> set bs. unat b + unat (align_up HEADERSIZE) + unat (size_f (hdrs s b)) \<le> unat (brk s))"

text \<open>The data bytes of the block at \<open>b\<close>: the \<^verbatim>\<open>size\<close> bytes after its padded header.\<close>

definition data_byte :: "allocator \<Rightarrow> addr \<Rightarrow> addr \<Rightarrow> bool" where
  "data_byte s b a \<longleftrightarrow>
     unat b + unat (align_up HEADERSIZE) \<le> unat a
     \<and> unat a < unat b + unat (align_up HEADERSIZE) + unat (size_f (hdrs s b))"

text \<open>
  The invariant that carries the list invariant through \<^verbatim>\<open>malloc\<close>, \<^verbatim>\<open>free\<close> and
  \<^verbatim>\<open>calloc\<close>: the list invariant, every block aligned and below the break, the break and
  the carving address aligned, \<^verbatim>\<open>CurrentTopBreak\<close> the break once it has been set, and the
  break below \<open>2^63\<close>.
\<close>

definition heap_inv :: "allocator \<Rightarrow> addr list \<Rightarrow> bool" where
  "heap_inv s bs \<longleftrightarrow>
     block_list s bs \<and> within_break s bs
     \<and> (\<forall>b \<in> set bs. aligned b) \<and> aligned (brk s) \<and> aligned (CurrentFreeSpace s)
     \<and> (CurrentTopBreak s = 0 \<or> CurrentTopBreak s = brk s)
     \<and> brk s \<noteq> 0 \<and> brk s \<le> brk_hi s \<and> unat (brk_hi s) < 2 ^ 63"

text \<open>Where the rounding loop ends when it does not wrap: the next multiple of 16.\<close>

definition up_target :: "64 word \<Rightarrow> nat" where
  "up_target x = unat x + (16 - unat x mod 16) mod 16"

subsection \<open>A fresh allocator\<close>

text \<open>A header laid down field by field, in the order of lines 118-120.\<close>

definition put_hdr :: "addr \<Rightarrow> BlockHeader \<Rightarrow> memory \<Rightarrow> memory" where
  "put_hdr b h m = set_free (set_next (set_size m b (size_f h)) b (next_f h)) b (free_f h)"

text \<open>Nothing allocated yet, zeroed memory, the break at \<open>0x1000\<close> with room for 1 MiB.\<close>

definition st0 :: allocator where
  "st0 = \<lparr>BlockBase = 0, CurrentTopBreak = 0, CurrentFreeSpace = 0,
          brk = 0x1000, brk_lo = 0x1000, brk_hi = 0x101000, mem = (\<lambda>_. 0)\<rparr>"

text \<open>After \<^verbatim>\<open>malloc(200)\<close>: one block, in a chunk of its own.\<close>

definition st1 :: allocator where
  "st1 = \<lparr>BlockBase = 0x1000, CurrentTopBreak = 0x11000, CurrentFreeSpace = 0x1000,
          brk = 0x11000, brk_lo = 0x1000, brk_hi = 0x101000,
          mem = put_hdr 0x1000 \<lparr>size_f = 200, free_f = 0, next_f = 0\<rparr> (\<lambda>_. 0)\<rparr>"

text \<open>Then \<^verbatim>\<open>malloc(100)\<close> and \<^verbatim>\<open>malloc(8)\<close>: three blocks, a chunk each.\<close>

definition st2 :: allocator where
  "st2 = \<lparr>BlockBase = 0x1000, CurrentTopBreak = 0x21000, CurrentFreeSpace = 0x11000,
          brk = 0x21000, brk_lo = 0x1000, brk_hi = 0x101000,
          mem = put_hdr 0x11000 \<lparr>size_f = 100, free_f = 0, next_f = 0\<rparr>
               (put_hdr 0x1000 \<lparr>size_f = 200, free_f = 0, next_f = 0x11000\<rparr> (\<lambda>_. 0))\<rparr>"

definition st3 :: allocator where
  "st3 = \<lparr>BlockBase = 0x1000, CurrentTopBreak = 0x31000, CurrentFreeSpace = 0x21000,
          brk = 0x31000, brk_lo = 0x1000, brk_hi = 0x101000,
          mem = put_hdr 0x21000 \<lparr>size_f = 8, free_f = 0, next_f = 0\<rparr>
               (put_hdr 0x11000 \<lparr>size_f = 100, free_f = 0, next_f = 0x21000\<rparr>
               (put_hdr 0x1000 \<lparr>size_f = 200, free_f = 0, next_f = 0x11000\<rparr> (\<lambda>_. 0)))\<rparr>"

text \<open>\<open>st3\<close> after \<^verbatim>\<open>free(0x1020)\<close>.\<close>

definition st4 :: allocator where
  "st4 = \<lparr>BlockBase = 0x1000, CurrentTopBreak = 0x31000, CurrentFreeSpace = 0x21000,
          brk = 0x31000, brk_lo = 0x1000, brk_hi = 0x101000,
          mem = put_hdr 0x21000 \<lparr>size_f = 8, free_f = 0, next_f = 0\<rparr>
               (put_hdr 0x11000 \<lparr>size_f = 100, free_f = 0, next_f = 0x21000\<rparr>
               (put_hdr 0x1000 \<lparr>size_f = 200, free_f = 1, next_f = 0x11000\<rparr> (\<lambda>_. 0)))\<rparr>"

text \<open>The states the calls of \<^verbatim>\<open>realloc\<close> below end in.\<close>

definition st3_moved :: allocator where
  "st3_moved = \<lparr>BlockBase = 0x1000, CurrentTopBreak = 0x41000, CurrentFreeSpace = 0x31000,
          brk = 0x41000, brk_lo = 0x1000, brk_hi = 0x101000,
          mem = put_hdr 0x31000 \<lparr>size_f = 190, free_f = 0, next_f = 0\<rparr>
               (put_hdr 0x21000 \<lparr>size_f = 8, free_f = 0, next_f = 0x31000\<rparr>
               (put_hdr 0x11000 \<lparr>size_f = 100, free_f = 0, next_f = 0x21000\<rparr>
               (put_hdr 0x1000 \<lparr>size_f = 200, free_f = 1, next_f = 0x11000\<rparr> (\<lambda>_. 0))))\<rparr>"

definition st3_grown :: allocator where
  "st3_grown = \<lparr>BlockBase = 0x1000, CurrentTopBreak = 0x31000, CurrentFreeSpace = 0x21000,
          brk = 0x31000, brk_lo = 0x1000, brk_hi = 0x101000,
          mem = put_hdr 0x21000 \<lparr>size_f = 8, free_f = 0, next_f = 0\<rparr>
               (put_hdr 0x11000 \<lparr>size_f = 100, free_f = 0, next_f = 0x21000\<rparr>
               (put_hdr 0x1000 \<lparr>size_f = 65512, free_f = 0, next_f = 0x11000\<rparr> (\<lambda>_. 0)))\<rparr>"

definition st5 :: allocator where
  "st5 = \<lparr>BlockBase = 0x1000, CurrentTopBreak = 0x41000, CurrentFreeSpace = 0x31000,
          brk = 0x41000, brk_lo = 0x1000, brk_hi = 0x101000,
          mem = put_hdr 0x31000 \<lparr>size_f = 66, free_f = 0, next_f = 0x31000\<rparr>
               (put_hdr 0x21000 \<lparr>size_f = 8, free_f = 0, next_f = 0\<rparr>
               (put_hdr 0x11000 \<lparr>size_f = 100, free_f = 1, next_f = 0x31000\<rparr>
               (put_hdr 0x1000 \<lparr>size_f = 200, free_f = 0, next_f = 0x11000\<rparr> (\<lambda>_. 0))))\<rparr>"

definition st1_moved :: allocator where
  "st1_moved = \<lparr>BlockBase = 0x1000, CurrentTopBreak = 0x21000, CurrentFreeSpace = 0x11000,
          brk = 0x21000, brk_lo = 0x1000, brk_hi = 0x101000,
          mem = put_hdr 0x11000 \<lparr>size_f = 216, free_f = 0, next_f = 0\<rparr>
               (put_hdr 0x1000 \<lparr>size_f = 200, free_f = 1, next_f = 0x11000\<rparr> (\<lambda>_. 0))\<rparr>"

text \<open>A fresh allocator whose break cannot move.\<close>

definition st_full :: allocator where
  "st_full = \<lparr>BlockBase = 0, CurrentTopBreak = 0, CurrentFreeSpace = 0,
          brk = 0x1000, brk_lo = 0x1000, brk_hi = 0x1000, mem = (\<lambda>_. 0)\<rparr>"

text \<open>A fresh allocator whose break is not a multiple of 16, and the state after
  \<^verbatim>\<open>malloc(200)\<close> there: the header lies at \<open>0x1008\<close>.\<close>

definition st0_odd :: allocator where
  "st0_odd = \<lparr>BlockBase = 0, CurrentTopBreak = 0, CurrentFreeSpace = 0,
          brk = 0x1008, brk_lo = 0x1008, brk_hi = 0x101008, mem = (\<lambda>_. 0)\<rparr>"

definition st1_odd :: allocator where
  "st1_odd = \<lparr>BlockBase = 0x1008, CurrentTopBreak = 0x11008, CurrentFreeSpace = 0x1008,
          brk = 0x11008, brk_lo = 0x1008, brk_hi = 0x101008,
          mem = put_hdr 0x1008 \<lparr>size_f = 200, free_f = 0, next_f = 0\<rparr> (\<lambda>_. 0)\<rparr>"

section \<open>Lemmas\<close>

subsection \<open>Loads and stores\<close>

lemma unat_sub_succ:
  fixes x a :: "64 word"
  assumes "x \<noteq> a"
  shows "unat (x - (a + 1)) = unat (x - a) - 1"
proof -
  from assms have "x - a \<noteq> 0" by simp
  then have "unat (x - a - 1) = unat (x - a) - 1" by (rule unat_minus_one)
  moreover have "x - (a + 1) = x - a - 1" by (simp only: diff_diff_eq)
  ultimately show ?thesis by (simp only:)
qed

lemma store_bytes_apply:
  "n \<le> 2 ^ 64 \<Longrightarrow>
   store_bytes m a n v x =
     (if unat (x - a) < n then of_nat (v div 256 ^ unat (x - a) mod 256) else m x)"
proof (induction n arbitrary: m a v)
  case 0
  then show ?case by simp
next
  case (Suc n)
  from Suc.prems have n: "n \<le> 2 ^ 64" "n < 2 ^ 64" by simp_all
  define m' where "m' = m(a := of_nat (v mod 256))"
  have IH: "store_bytes m' (a + 1) n (v div 256) x =
     (if unat (x - (a + 1)) < n then of_nat (v div 256 div 256 ^ unat (x - (a + 1)) mod 256) else m' x)"
    by (rule Suc.IH [OF n(1)])
  have unf: "store_bytes m a (Suc n) v x = store_bytes m' (a + 1) n (v div 256) x"
    by (simp add: m'_def)
  show ?case
  proof (cases "x = a")
    case True
    have "a - (a + 1) = (- 1 :: 64 word)" by simp
    then have "unat (a - (a + 1)) = 2 ^ 64 - 1"
      by (simp add: unsigned_minus_1_eq_mask mask_eq_exp_minus_1)
    with n(2) have "\<not> unat (x - (a + 1)) < n" unfolding True by simp
    with IH have "store_bytes m' (a + 1) n (v div 256) x = m' x" by simp
    with unf True show ?thesis by (simp add: m'_def)
  next
    case False
    then have "x - a \<noteq> 0" by simp
    then have pos: "unat (x - a) \<noteq> 0" by (simp only: unat_eq_0 not_False_eq_True)
    then obtain j where j: "unat (x - a) = Suc j" by (cases "unat (x - a)") auto
    with unat_sub_succ [OF False] have j': "unat (x - (a + 1)) = j" by simp
    have d: "v div 256 div 256 ^ j = v div 256 ^ Suc j" by (simp add: div_mult2_eq)
    from False have mx: "m' x = m x" by (simp add: m'_def)
    show ?thesis unfolding unf IH j j' d mx by simp
  qed
qed

lemma load_bytes_cong:
  "(\<And>i. i < n \<Longrightarrow> m' (a + of_nat i) = m (a + of_nat i)) \<Longrightarrow> load_bytes m' a n = load_bytes m a n"
proof (induction n arbitrary: a)
  case 0
  then show ?case by simp
next
  case (Suc n)
  from Suc.prems [of 0] have h: "m' a = m a" by simp
  have "load_bytes m' (a + 1) n = load_bytes m (a + 1) n"
  proof (rule Suc.IH)
    fix i assume "i < n"
    then have "Suc i < Suc n" by simp
    from Suc.prems [OF this] show "m' (a + 1 + of_nat i) = m (a + 1 + of_nat i)"
      by (simp add: ac_simps)
  qed
  with h show ?case by simp
qed

lemma load_store_bytes:
  "n < 2 ^ 64 \<Longrightarrow> load_bytes (store_bytes m a n v) a n = v mod 256 ^ n"
proof (induction n arbitrary: m a v)
  case 0
  then show ?case by simp
next
  case (Suc n)
  define m' where "m' = m(a := of_nat (v mod 256))"
  from Suc.prems have n: "n < 2 ^ 64" "Suc n \<le> 2 ^ 64" by simp_all
  have hd: "store_bytes m a (Suc n) v a = of_nat (v mod 256)"
    using store_bytes_apply [OF n(2), of m a v a] by simp
  have "unat (of_nat (v mod 256) :: 8 word) = v mod 256"
    by (simp add: unat_of_nat)
  with hd have b0: "unat (store_bytes m a (Suc n) v a) = v mod 256" by simp
  have unf: "store_bytes m a (Suc n) v = store_bytes m' (a + 1) n (v div 256)"
    by (simp add: m'_def)
  have tl: "load_bytes (store_bytes m a (Suc n) v) (a + 1) n = v div 256 mod 256 ^ n"
    unfolding unf by (rule Suc.IH [OF n(1)])
  have "v mod 256 ^ Suc n = v mod 256 + 256 * (v div 256 mod 256 ^ n)"
    by (simp add: mod_mult2_eq)
  with b0 tl show ?case by simp
qed

lemma load64_store64 [simp]: "load64 (store64 m a v) a = v"
proof -
  have "unat v < 2 ^ 64" using unsigned_less [of v] by simp
  then have "unat v mod 256 ^ 8 = unat v" by simp
  then show ?thesis by (simp add: load64_def store64_def load_store_bytes)
qed

lemma load32_store32 [simp]: "load32 (store32 m a v) a = v"
proof -
  have "unat v < 2 ^ 32" using unsigned_less [of v] by simp
  then have "unat v mod 256 ^ 4 = unat v" by simp
  then show ?thesis by (simp add: load32_def store32_def load_store_bytes)
qed

lemma unat_sub_off:
  fixes x b :: "64 word"
  assumes "off < 2 ^ 64"
  shows "unat (x - (b + of_nat off)) =
     (if off \<le> unat (x - b) then unat (x - b) - off else unat (x - b) + 2 ^ 64 - off)"
proof -
  have k: "unat (of_nat off :: 64 word) = off" using assms by (simp add: unat_of_nat)
  have "x - (b + of_nat off) = (x - b) - of_nat off" by (simp only: diff_diff_eq)
  then have "unat (x - (b + of_nat off)) = unat ((x - b) - of_nat off)" by (simp only:)
  also have "\<dots> = (if unat (of_nat off :: 64 word) \<le> unat (x - b)
       then unat (x - b) - unat (of_nat off :: 64 word)
       else unat (x - b) + 2 ^ 64 - unat (of_nat off :: 64 word))"
    by (simp add: unat_sub_if')
  finally show ?thesis unfolding k .
qed

lemma in_field:
  fixes x b :: "64 word"
  assumes "off + n \<le> 24"
  shows "unat (x - (b + of_nat off)) < n \<longleftrightarrow> off \<le> unat (x - b) \<and> unat (x - b) < off + n"
proof -
  from assms have "off < 2 ^ 64" by simp
  from unat_sub_off [OF this, of x b] assms show ?thesis by auto
qed

lemma set_size_apply:
  "set_size m b v x =
     (if unat (x - b) < 8 then of_nat (unat v div 256 ^ unat (x - b) mod 256) else m x)"
  by (simp add: set_size_def store64_def store_bytes_apply)

lemma set_free_apply:
  "set_free m b v x =
     (if 8 \<le> unat (x - b) \<and> unat (x - b) < 12
      then of_nat (unat v div 256 ^ (unat (x - b) - 8) mod 256) else m x)"
proof -
  have "unat (x - (b + of_nat 8)) < 4 \<longleftrightarrow> 8 \<le> unat (x - b) \<and> unat (x - b) < 8 + 4"
    by (rule in_field) simp
  moreover have "unat (x - (b + of_nat 8)) =
     (if 8 \<le> unat (x - b) then unat (x - b) - 8 else unat (x - b) + 2 ^ 64 - 8)"
    by (rule unat_sub_off) simp
  ultimately show ?thesis by (simp add: set_free_def store32_def store_bytes_apply)
qed

lemma set_next_apply:
  "set_next m b v x =
     (if 16 \<le> unat (x - b) \<and> unat (x - b) < 24
      then of_nat (unat v div 256 ^ (unat (x - b) - 16) mod 256) else m x)"
proof -
  have "unat (x - (b + of_nat 16)) < 8 \<longleftrightarrow> 16 \<le> unat (x - b) \<and> unat (x - b) < 16 + 8"
    by (rule in_field) simp
  moreover have "unat (x - (b + of_nat 16)) =
     (if 16 \<le> unat (x - b) then unat (x - b) - 16 else unat (x - b) + 2 ^ 64 - 16)"
    by (rule unat_sub_off) simp
  ultimately show ?thesis by (simp add: set_next_def store64_def store_bytes_apply)
qed

lemma unat_add_small:
  fixes b :: "64 word"
  assumes "i < 2 ^ 64"
  shows "unat (b + of_nat i - b) = i"
proof -
  have "b + of_nat i - b = of_nat i" by simp
  with assms show ?thesis by (simp add: unat_of_nat)
qed

lemma size_cong:
  assumes "\<And>x. unat (x - b) < 8 \<Longrightarrow> m' x = m x"
  shows "load64 m' b = load64 m b"
proof -
  have "load_bytes m' b 8 = load_bytes m b 8"
  proof (rule load_bytes_cong)
    fix i :: nat assume i: "i < 8"
    have "unat (b + of_nat i - b) = i" using i by (intro unat_add_small) simp
    with i have "unat (b + of_nat i - b) < 8" by simp
    then show "m' (b + of_nat i) = m (b + of_nat i)" by (rule assms)
  qed
  then show ?thesis by (simp add: load64_def)
qed

lemma free_cong:
  assumes "\<And>x. 8 \<le> unat (x - b) \<Longrightarrow> unat (x - b) < 12 \<Longrightarrow> m' x = m x"
  shows "load32 m' (b + 8) = load32 m (b + 8)"
proof -
  have "load_bytes m' (b + 8) 4 = load_bytes m (b + 8) 4"
  proof (rule load_bytes_cong)
    fix i :: nat assume i: "i < 4"
    have "b + 8 + of_nat i = b + of_nat (8 + i)" by simp
    moreover have "unat (b + of_nat (8 + i) - b) = 8 + i" using i by (intro unat_add_small) simp
    ultimately have "unat (b + 8 + of_nat i - b) = 8 + i" by (simp only:)
    with i show "m' (b + 8 + of_nat i) = m (b + 8 + of_nat i)" by (intro assms) simp_all
  qed
  then show ?thesis by (simp add: load32_def)
qed

lemma next_cong:
  assumes "\<And>x. 16 \<le> unat (x - b) \<Longrightarrow> unat (x - b) < 24 \<Longrightarrow> m' x = m x"
  shows "load64 m' (b + 16) = load64 m (b + 16)"
proof -
  have "load_bytes m' (b + 16) 8 = load_bytes m (b + 16) 8"
  proof (rule load_bytes_cong)
    fix i :: nat assume i: "i < 8"
    have "b + 16 + of_nat i = b + of_nat (16 + i)" by simp
    moreover have "unat (b + of_nat (16 + i) - b) = 16 + i" using i by (intro unat_add_small) simp
    ultimately have "unat (b + 16 + of_nat i - b) = 16 + i" by (simp only:)
    with i show "m' (b + 16 + of_nat i) = m (b + 16 + of_nat i)" by (intro assms) simp_all
  qed
  then show ?thesis by (simp add: load64_def)
qed

lemma hdr_cong:
  assumes "\<And>x. unat (x - b) < 24 \<Longrightarrow> m' x = m x"
  shows "hdr m' b = hdr m b"
proof -
  have "load64 m' b = load64 m b" by (rule size_cong) (simp add: assms)
  moreover have "load32 m' (b + 8) = load32 m (b + 8)" by (rule free_cong) (simp add: assms)
  moreover have "load64 m' (b + 16) = load64 m (b + 16)" by (rule next_cong) (simp add: assms)
  ultimately show ?thesis by (simp add: hdr_def)
qed

lemma hdr_set_size [simp]: "hdr (set_size m b v) b = (hdr m b)\<lparr>size_f := v\<rparr>"
proof -
  have "load64 (set_size m b v) b = v" by (simp add: set_size_def)
  moreover have "load32 (set_size m b v) (b + 8) = load32 m (b + 8)"
    by (rule free_cong) (simp add: set_size_apply)
  moreover have "load64 (set_size m b v) (b + 16) = load64 m (b + 16)"
    by (rule next_cong) (simp add: set_size_apply)
  ultimately show ?thesis by (simp add: hdr_def)
qed

lemma hdr_set_free [simp]: "hdr (set_free m b v) b = (hdr m b)\<lparr>free_f := v\<rparr>"
proof -
  have "load32 (set_free m b v) (b + 8) = v" by (simp add: set_free_def)
  moreover have "load64 (set_free m b v) b = load64 m b"
    by (rule size_cong) (simp add: set_free_apply)
  moreover have "load64 (set_free m b v) (b + 16) = load64 m (b + 16)"
    by (rule next_cong) (simp add: set_free_apply)
  ultimately show ?thesis by (simp add: hdr_def)
qed

lemma hdr_set_next [simp]: "hdr (set_next m b v) b = (hdr m b)\<lparr>next_f := v\<rparr>"
proof -
  have "load64 (set_next m b v) (b + 16) = v" by (simp add: set_next_def)
  moreover have "load64 (set_next m b v) b = load64 m b"
    by (rule size_cong) (simp add: set_next_apply)
  moreover have "load32 (set_next m b v) (b + 8) = load32 m (b + 8)"
    by (rule free_cong) (simp add: set_next_apply)
  ultimately show ?thesis by (simp add: hdr_def)
qed

lemma hdr_put_hdr [simp]: "hdr (put_hdr b h m) b = h"
  by (simp add: put_hdr_def)

lemma apart_sym: "apart a b \<Longrightarrow> apart b a"
  by (simp add: apart_def)

lemma apart_outside:
  assumes "apart a b" and "unat (x - b) < 24"
  shows "24 \<le> unat (x - a)"
proof -
  from assms(1) have d: "24 \<le> unat (b - a)" and e: "24 \<le> unat (a - b)" by (simp_all add: apart_def)
  have ua: "unat a < 2 ^ 64" and ub: "unat b < 2 ^ 64"
    using unsigned_less [of a] unsigned_less [of b] by simp_all
  have "unat (b - a) = (if unat a \<le> unat b then unat b - unat a else unat b + 2 ^ 64 - unat a)"
    "unat (a - b) = (if unat b \<le> unat a then unat a - unat b else unat a + 2 ^ 64 - unat b)"
    by (simp_all add: unat_sub_if')
  with d e ua ub have "unat (b - a) \<le> 2 ^ 64 - 24" by (auto split: if_splits)
  with assms(2) have "unat (x - b) + unat (b - a) < 2 ^ LENGTH(64)" by simp
  then have "unat ((x - b) + (b - a)) = unat (x - b) + unat (b - a)"
    by (simp only: unat_add_lem [THEN iffD1])
  moreover have "(x - b) + (b - a) = x - a" by simp
  ultimately show ?thesis using d by simp
qed

lemma set_size_outside: "24 \<le> unat (x - b) \<Longrightarrow> set_size m b v x = m x"
  by (simp add: set_size_apply)

lemma set_free_outside: "24 \<le> unat (x - b) \<Longrightarrow> set_free m b v x = m x"
  by (simp add: set_free_apply)

lemma set_next_outside: "24 \<le> unat (x - b) \<Longrightarrow> set_next m b v x = m x"
  by (simp add: set_next_apply)

lemma put_hdr_outside: "24 \<le> unat (x - b) \<Longrightarrow> put_hdr b h m x = m x"
  by (simp add: put_hdr_def set_size_outside set_free_outside set_next_outside)

lemma hdr_set_size_apart: "apart a b \<Longrightarrow> hdr (set_size m a v) b = hdr m b"
  by (rule hdr_cong) (simp add: set_size_outside apart_outside)

lemma hdr_set_free_apart: "apart a b \<Longrightarrow> hdr (set_free m a v) b = hdr m b"
  by (rule hdr_cong) (simp add: set_free_outside apart_outside)

lemma hdr_set_next_apart: "apart a b \<Longrightarrow> hdr (set_next m a v) b = hdr m b"
  by (rule hdr_cong) (simp add: set_next_outside apart_outside)

lemma hdr_put_hdr_apart: "apart a b \<Longrightarrow> hdr (put_hdr a h m) b = hdr m b"
  by (rule hdr_cong) (simp add: put_hdr_outside apart_outside)

lemma put_hdr_apply:
  "put_hdr b h m x =
     (if unat (x - b) < 8 then of_nat (unat (size_f h) div 256 ^ unat (x - b) mod 256)
      else if 8 \<le> unat (x - b) \<and> unat (x - b) < 12
        then of_nat (unat (free_f h) div 256 ^ (unat (x - b) - 8) mod 256)
      else if 16 \<le> unat (x - b) \<and> unat (x - b) < 24
        then of_nat (unat (next_f h) div 256 ^ (unat (x - b) - 16) mod 256)
      else m x)"
  by (simp add: put_hdr_def set_size_apply set_free_apply set_next_apply)

lemma put_hdr_fold:
  "set_free (set_next (set_size m b s) b n) b f = put_hdr b \<lparr>size_f = s, free_f = f, next_f = n\<rparr> m"
  by (simp add: put_hdr_def)

lemma set_size_put_hdr: "set_size (put_hdr b h m) b v = put_hdr b (h\<lparr>size_f := v\<rparr>) m"
  by (rule ext) (simp add: put_hdr_apply set_size_apply)

lemma set_free_put_hdr: "set_free (put_hdr b h m) b v = put_hdr b (h\<lparr>free_f := v\<rparr>) m"
  by (rule ext) (simp add: put_hdr_apply set_free_apply)

lemma set_next_put_hdr: "set_next (put_hdr b h m) b v = put_hdr b (h\<lparr>next_f := v\<rparr>) m"
  by (rule ext) (simp add: put_hdr_apply set_next_apply)

lemma set_size_put_hdr_apart:
  assumes "apart a b"
  shows "set_size (put_hdr b h m) a v = put_hdr b h (set_size m a v)"
proof (rule ext)
  fix x
  show "set_size (put_hdr b h m) a v x = put_hdr b h (set_size m a v) x"
  proof (cases "unat (x - a) < 24")
    case True
    with apart_outside [OF apart_sym [OF assms]] have "24 \<le> unat (x - b)" by simp
    then show ?thesis by (simp add: put_hdr_apply set_size_apply)
  next
    case False
    then show ?thesis by (simp add: put_hdr_apply set_size_apply)
  qed
qed

lemma set_free_put_hdr_apart:
  assumes "apart a b"
  shows "set_free (put_hdr b h m) a v = put_hdr b h (set_free m a v)"
proof (rule ext)
  fix x
  show "set_free (put_hdr b h m) a v x = put_hdr b h (set_free m a v) x"
  proof (cases "unat (x - a) < 24")
    case True
    with apart_outside [OF apart_sym [OF assms]] have "24 \<le> unat (x - b)" by simp
    then show ?thesis by (simp add: put_hdr_apply set_free_apply)
  next
    case False
    then show ?thesis by (simp add: put_hdr_apply set_free_apply)
  qed
qed

lemma set_next_put_hdr_apart:
  assumes "apart a b"
  shows "set_next (put_hdr b h m) a v = put_hdr b h (set_next m a v)"
proof (rule ext)
  fix x
  show "set_next (put_hdr b h m) a v x = put_hdr b h (set_next m a v) x"
  proof (cases "unat (x - a) < 24")
    case True
    with apart_outside [OF apart_sym [OF assms]] have "24 \<le> unat (x - b)" by simp
    then show ?thesis by (simp add: put_hdr_apply set_next_apply)
  next
    case False
    then show ?thesis by (simp add: put_hdr_apply set_next_apply)
  qed
qed

lemma load_bytes_zero: "load_bytes (\<lambda>_. 0) a n = 0"
  by (induction n arbitrary: a) simp_all

lemma hdr_zero [simp]: "hdr (\<lambda>_. 0) b = \<lparr>size_f = 0, free_f = 0, next_f = 0\<rparr>"
  by (simp add: hdr_def load64_def load32_def load_bytes_zero)

lemmas heap_simps = put_hdr_fold set_size_put_hdr set_free_put_hdr set_next_put_hdr
  set_size_put_hdr_apart set_free_put_hdr_apart set_next_put_hdr_apart
  hdr_put_hdr_apart apart_def

subsection \<open>The alignment loops\<close>

lemma align_up_aligned: "aligned (align_up x)"
  unfolding aligned_def by (induction x rule: align_up.induct) (subst align_up.simps, simp)

lemma align_down_aligned: "aligned (align_down x)"
  unfolding aligned_def by (induction x rule: align_down.induct) (subst align_down.simps, simp)

lemma mod16_add: "(x + y) mod 16 = ((x mod 16) + (y mod 16)) mod (16 :: 64 word)"
  by (simp add: word_unat_eq_iff unat_mod unat_word_ariths mod_mod_cancel mod_add_eq)

lemma aligned_add: "b mod 16 = 0 \<Longrightarrow> (b + k) mod 16 = k mod (16 :: 64 word)"
proof -
  have "k mod 16 mod 16 = k mod 16" by (simp add: word_unat_eq_iff unat_mod)
  with mod16_add [of b k] show "b mod 16 = 0 \<Longrightarrow> (b + k) mod 16 = k mod 16" by simp
qed

lemma align_up_step:
  "b mod 16 = 0 \<Longrightarrow> k mod 16 \<noteq> 0 \<Longrightarrow> align_up (b + k) = align_up (b + (k + 1))"
  by (subst align_up.simps) (simp add: aligned_add add.assoc)

lemma align_down_step:
  "b mod 16 = 0 \<Longrightarrow> k mod 16 \<noteq> 0 \<Longrightarrow> align_down (b + k) = align_down (b + (k - 1))"
  by (subst align_down.simps) (simp add: aligned_add add_diff_eq)

lemma align_up_id: "b mod 16 = 0 \<Longrightarrow> align_up b = b"
  by (simp add: align_up.simps [of b])

lemma align_down_id: "b mod 16 = 0 \<Longrightarrow> align_down b = b"
  by (simp add: align_down.simps [of b])

lemma aligned_sum: "aligned a \<Longrightarrow> aligned b \<Longrightarrow> aligned (a + b)"
  unfolding aligned_def using aligned_add [of a b] by simp

lemma aligned_0 [simp]: "aligned 0"
  by (simp add: aligned_def)

lemma dataStart_aligned_block:
  assumes "aligned b"
  shows "dataStart b = b + 32"
proof -
  from assms have b: "b mod 16 = 0" by (simp only: aligned_def)
  have "align_up (b + 24) = align_up (b + 25)" using align_up_step [OF b, of 24] by simp
  also have "\<dots> = align_up (b + 26)" using align_up_step [OF b, of 25] by simp
  also have "\<dots> = align_up (b + 27)" using align_up_step [OF b, of 26] by simp
  also have "\<dots> = align_up (b + 28)" using align_up_step [OF b, of 27] by simp
  also have "\<dots> = align_up (b + 29)" using align_up_step [OF b, of 28] by simp
  also have "\<dots> = align_up (b + 30)" using align_up_step [OF b, of 29] by simp
  also have "\<dots> = align_up (b + 31)" using align_up_step [OF b, of 30] by simp
  also have "\<dots> = align_up (b + 32)" using align_up_step [OF b, of 31] by simp
  also have "\<dots> = b + 32" using b by (intro align_up_id) (simp add: aligned_add)
  finally show ?thesis by (simp only: dataStart_def)
qed

lemma GetBlockHeader_aligned_block:
  assumes "aligned b"
  shows "GetBlockHeader (b + 32) = b"
proof -
  from assms have b: "b mod 16 = 0" by (simp only: aligned_def)
  have "align_down (b + 8) = align_down (b + 7)" using align_down_step [OF b, of 8] by simp
  also have "\<dots> = align_down (b + 6)" using align_down_step [OF b, of 7] by simp
  also have "\<dots> = align_down (b + 5)" using align_down_step [OF b, of 6] by simp
  also have "\<dots> = align_down (b + 4)" using align_down_step [OF b, of 5] by simp
  also have "\<dots> = align_down (b + 3)" using align_down_step [OF b, of 4] by simp
  also have "\<dots> = align_down (b + 2)" using align_down_step [OF b, of 3] by simp
  also have "\<dots> = align_down (b + 1)" using align_down_step [OF b, of 2] by simp
  also have "\<dots> = align_down b" using align_down_step [OF b, of 1] by simp
  also have "\<dots> = b" using b by (rule align_down_id)
  finally have "align_down (b + 8) = b" .
  moreover have "b + 32 - 24 = b + 8" by simp
  ultimately show ?thesis by (simp only: GetBlockHeader_def)
qed

subsection \<open>The ways a call of GetBlock ends\<close>

lemma align_up_HEADERSIZE: "align_up HEADERSIZE = 32"
  by (simp add: align_up.simps)

lemma GetBlock_blockSize_eq: "GetBlock_blockSize sz = align_up (sz + 32)"
  by (simp add: GetBlock_blockSize_def align_up_HEADERSIZE)

lemma GetBlock_amount_aligned: "aligned (GetBlock_amount sz)"
  by (simp add: GetBlock_amount_def GetBlock_blockSize_eq align_up_aligned) (simp add: aligned_def)

lemma GetBlock_amount_nonzero: "GetBlock_amount sz \<noteq> 0"
  by (auto simp: GetBlock_amount_def)

lemma sbrk_query: "sbrk s 0 = (s, brk s)"
  by (simp add: sbrk_def)

lemma sbrk_amount:
  "sbrk s (GetBlock_amount sz) =
     (if sbrk_fits s (GetBlock_amount sz)
      then (s\<lparr>brk := brk s + GetBlock_amount sz\<rparr>, brk s) else (s, - 1))"
  by (simp add: sbrk_def GetBlock_amount_nonzero)

lemma GetBlock_disj:
  "GetBlock s l sz = (s, 0)
   \<or> (GetBlock s l sz = (s\<lparr>brk := brk s + GetBlock_amount sz\<rparr>, 0)
       \<and> brk s + GetBlock_amount sz = - 1)
   \<or> (GetBlock s l sz = GetBlock_carve
         (s\<lparr>brk := brk s + GetBlock_amount sz,
            CurrentTopBreak := brk s + GetBlock_amount sz,
            CurrentFreeSpace := brk s\<rparr>) l sz
       \<and> sbrk_fits s (GetBlock_amount sz))
   \<or> (GetBlock s l sz = GetBlock_carve s l sz \<and> CurrentTopBreak s \<noteq> 0
       \<and> \<not> CurrentTopBreak s < brk s + GetBlock_blockSize sz)"
proof (cases "brk s = - 1")
  case True
  then show ?thesis by (simp add: GetBlock_def sbrk_query)
next
  case nofail: False
  show ?thesis
  proof (cases "CurrentTopBreak s = 0 \<or> CurrentTopBreak s < brk s + GetBlock_blockSize sz")
    case False
    with nofail show ?thesis by (simp add: GetBlock_def sbrk_query Let_def)
  next
    case grow: True
    show ?thesis
    proof (cases "sbrk_fits s (GetBlock_amount sz)")
      case False
      with nofail grow have "GetBlock s l sz = (s, 0)"
        by (simp add: GetBlock_def sbrk_query Let_def sbrk_amount)
      then show ?thesis by simp
    next
      case ok: True
      show ?thesis
      proof (cases "brk s + GetBlock_amount sz = - 1")
        case True
        with nofail grow ok have "GetBlock s l sz = (s\<lparr>brk := brk s + GetBlock_amount sz\<rparr>, 0)"
          by (simp add: GetBlock_def sbrk_query Let_def sbrk_amount)
        with True show ?thesis by simp
      next
        case False
        with nofail grow ok have "GetBlock s l sz = GetBlock_carve
         (s\<lparr>brk := brk s + GetBlock_amount sz,
            CurrentTopBreak := brk s + GetBlock_amount sz,
            CurrentFreeSpace := brk s\<rparr>) l sz"
          by (simp add: GetBlock_def sbrk_query Let_def sbrk_amount)
        with ok show ?thesis by simp
      qed
    qed
  qed
qed

subsection \<open>GetBlock and alignment\<close>

lemma GetBlock_carve_simps:
  "snd (GetBlock_carve s l sz) = CurrentFreeSpace s"
  "hdrs (fst (GetBlock_carve s l sz)) (CurrentFreeSpace s) = \<lparr>size_f = sz, free_f = 0, next_f = 0\<rparr>"
  "CurrentFreeSpace (fst (GetBlock_carve s l sz)) = CurrentFreeSpace s"
  "CurrentTopBreak (fst (GetBlock_carve s l sz)) = CurrentTopBreak s"
  "BlockBase (fst (GetBlock_carve s l sz)) = BlockBase s"
  "brk (fst (GetBlock_carve s l sz)) = brk s"
  by (simp_all add: GetBlock_carve_def Let_def)

lemma GetBlock_result:
  "GetBlock s l sz = (s', b) \<Longrightarrow> b = 0 \<or> b = brk s \<or> b = CurrentFreeSpace s"
  using GetBlock_disj [of s l sz] by (auto simp: GetBlock_carve_def Let_def)

lemma GetBlock_aligned:
  assumes "aligned_heap s" and "GetBlock s l sz = (s', b)"
  shows "aligned b"
  using GetBlock_result [OF assms(2)] assms(1) by (auto simp: aligned_heap_def)

lemma FindFreeBlock_loop_reach:
  assumes run: "FindFreeBlock_loop h sz l b = Some r" and start: "b = 0 \<or> reach h a b"
  shows "snd r = 0 \<or> reach h a (snd r)"
proof -
  have "\<forall>a. (b = 0 \<or> reach h a b) \<longrightarrow> (snd r = 0 \<or> reach h a (snd r))"
  proof (rule FindFreeBlock_loop.raw_induct
      [where P = "\<lambda>h sz l b r. \<forall>a. (b = 0 \<or> reach h a b) \<longrightarrow> (snd r = 0 \<or> reach h a (snd r))",
        OF _ run])
    fix f :: "(addr \<Rightarrow> BlockHeader) \<Rightarrow> 64 word \<Rightarrow> addr \<Rightarrow> addr \<Rightarrow> (addr \<times> addr) option"
    fix h sz l b r
    assume IH: "\<And>h sz l b r. f h sz l b = Some r \<Longrightarrow>
        \<forall>a. (b = 0 \<or> reach h a b) \<longrightarrow> (snd r = 0 \<or> reach h a (snd r))"
    assume step: "(if b \<noteq> 0 \<and> \<not> (free_f (h b) \<noteq> 0 \<and> sz \<le> size_f (h b))
                   then f h sz b (next_f (h b)) else Some (l, b)) = Some r"
    show "\<forall>a. (b = 0 \<or> reach h a b) \<longrightarrow> (snd r = 0 \<or> reach h a (snd r))"
    proof (intro allI impI)
      fix a assume b: "b = 0 \<or> reach h a b"
      show "snd r = 0 \<or> reach h a (snd r)"
      proof (cases "b \<noteq> 0 \<and> \<not> (free_f (h b) \<noteq> 0 \<and> sz \<le> size_f (h b))")
        case True
        with step have f: "f h sz b (next_f (h b)) = Some r" by simp
        from True b have "reach h a b" by simp
        then have "next_f (h b) = 0 \<or> reach h a (next_f (h b))" by (auto intro: reach.step)
        with IH [OF f] show ?thesis by blast
      next
        case False
        with step have "r = (l, b)" by auto
        with b show ?thesis by simp
      qed
    qed
  qed
  with start show ?thesis by blast
qed

lemma malloc_block_aligned:
  assumes inv: "aligned_heap s" and run: "malloc_block s sz = Some (s', b)"
  shows "aligned b"
proof (cases "BlockBase s = 0")
  case True
  obtain s1 b1 where g: "GetBlock s 0 sz = (s1, b1)" by (cases "GetBlock s 0 sz")
  from GetBlock_aligned [OF inv g] have a: "aligned b1" .
  from True run g have "b = b1" by (auto simp: malloc_block_def split: if_splits)
  with a show ?thesis by simp
next
  case False
  with run obtain l b0 where f: "FindFreeBlock s (BlockBase s) sz = Some (l, b0)"
    by (auto simp: malloc_block_def split: option.splits)
  from False have "reach (hdrs s) (BlockBase s) (BlockBase s)" by (rule reach.start)
  with f FindFreeBlock_loop_reach [of "hdrs s" sz "BlockBase s" "BlockBase s" "(l, b0)" "BlockBase s"]
  have "b0 = 0 \<or> reach (hdrs s) (BlockBase s) b0" by (simp add: FindFreeBlock_def)
  with inv have b0: "aligned b0" by (auto simp: aligned_heap_def)
  show ?thesis
  proof (cases "b0 = 0")
    case True
    with False run f have "GetBlock s l sz = (s', b)" by (simp add: malloc_block_def)
    with inv show ?thesis by (rule GetBlock_aligned)
  next
    case found: False
    with False run f have "b = b0" by (auto simp: malloc_block_def)
    with b0 show ?thesis by simp
  qed
qed

lemma dataStart_GetBlockHeader:
  assumes "aligned p"
  shows "dataStart (GetBlockHeader p) = p"
proof -
  from assms have "p mod 16 = 0" by (simp only: aligned_def)
  then have "(p + (- 32)) mod 16 = (- 32) mod 16" by (rule aligned_add)
  then have b: "aligned (p - 32)" by (simp add: aligned_def)
  have "GetBlockHeader (p - 32 + 32) = p - 32" using b by (rule GetBlockHeader_aligned_block)
  then have "GetBlockHeader p = p - 32" by simp
  moreover have "dataStart (p - 32) = p - 32 + 32" using b by (rule dataStart_aligned_block)
  ultimately show ?thesis by simp
qed

lemma malloc_success:
  assumes "malloc s sz = Some (Ret (s', p))" and "p \<noteq> 0"
  obtains b where "malloc_block s sz = Some (s', b)" and "b \<noteq> 0" and "p = dataStart b"
  using assms by (auto simp: malloc_def split: if_splits option.splits)

lemma malloc_aligned: "malloc s sz = Some (Ret (s', p)) \<Longrightarrow> aligned p"
  by (auto simp: malloc_def dataStart_def align_up_aligned aligned_0 split: if_splits option.splits)

lemma calloc_aligned: "calloc s n sz = Some (Ret (s', p)) \<Longrightarrow> aligned p"
  by (auto simp: calloc_def Let_def aligned_0 dest: malloc_aligned split: if_splits option.splits outcome.splits)

lemma realloc_aligned:
  "aligned ptr \<Longrightarrow> realloc s junk ptr sz = Some (Ret (s', p)) \<Longrightarrow> aligned p"
  by (auto simp: realloc_def Let_def aligned_0 dest: malloc_aligned split: if_splits option.splits outcome.splits)

lemma GetBlockHeader_aligned: "aligned (GetBlockHeader p)"
  by (simp add: GetBlockHeader_def align_down_aligned)

subsection \<open>What GetBlock leaves behind\<close>



lemma realloc_failed_salvage:
  assumes "ptr \<noteq> 0" and "sz \<noteq> 0"
    and "realloc_shrinks (ucast (sz - size_f (hdrs s (GetBlockHeader ptr))))"
    and "snd (GetBlock s (GetBlockHeader ptr)
            (scast (ucast (sz - size_f (hdrs s (GetBlockHeader ptr))) * (- 1 :: 32 word))
               - HEADERSIZE)) = 0"
  shows "realloc s junk ptr sz = Some Fault"
  using assms by (simp add: realloc_def realloc_shrink_def Let_def split_def)

subsection \<open>The calls that build the example states\<close>

lemma zero_range_zero [simp]: "zero_range (\<lambda>_. 0) p n"
  by (simp add: zero_range_def)

lemma range_outside:
  fixes x p b n :: "64 word"
  assumes "x - p < n" and "24 \<le> unat (p - b)" and "unat (p - b) + unat n \<le> 2 ^ 64"
  shows "24 \<le> unat (x - b)"
proof -
  from assms(1) have "unat (x - p) < unat n" by (simp only: word_less_nat_alt)
  with assms(3) have "unat (x - p) + unat (p - b) < 2 ^ LENGTH(64)" by simp
  then have "unat ((x - p) + (p - b)) = unat (x - p) + unat (p - b)"
    by (simp only: unat_add_lem [THEN iffD1])
  moreover have "(x - p) + (p - b) = x - b" by simp
  ultimately show ?thesis using assms(2) by simp
qed

lemma zero_range_put_hdr:
  assumes "24 \<le> unat (p - b)" and "unat (p - b) + unat n \<le> 2 ^ 64"
  shows "zero_range (put_hdr b h m) p n = zero_range m p n"
  unfolding zero_range_def using range_outside [OF _ assms] by (simp add: put_hdr_outside)

lemma memcpy_zero_range:
  assumes "zero_range m src n" and "zero_range m dst n"
  shows "memcpy m dst src n = m"
proof (rule ext)
  fix a
  show "memcpy m dst src n a = m a"
  proof (cases "a - dst < n")
    case True
    have "src + (a - dst) - src = a - dst" by simp
    with True have "src + (a - dst) - src < n" by (simp only:)
    with assms(1) have "m (src + (a - dst)) = 0" by (simp only: zero_range_def)
    moreover from assms(2) True have "m a = 0" by (simp only: zero_range_def)
    ultimately show ?thesis using True by (simp add: memcpy_def)
  next
    case False
    then show ?thesis by (simp add: memcpy_def)
  qed
qed

lemmas eval_defs = malloc_def malloc_block_def FindFreeBlock_def FindFreeBlock_loop.simps
  GetBlock_def GetBlock_blockSize_def GetBlock_amount_def sbrk_def sbrk_fits_def
  GetBlock_carve_def Let_def dataStart_def align_up.simps GetBlockHeader_def align_down.simps
  free_def realloc_def realloc_shrink_def realloc_shrinks_def calloc_def heap_simps
  memcpy_zero_range zero_range_put_hdr

lemma malloc_st0: "malloc st0 200 = Some (Ret (st1, 0x1020))"
  by (simp add: eval_defs st0_def st1_def)

lemma malloc_st1: "malloc st1 100 = Some (Ret (st2, 0x11020))"
  by (simp add: eval_defs st1_def st2_def)

lemma malloc_st2: "malloc st2 8 = Some (Ret (st3, 0x21020))"
  by (simp add: eval_defs st2_def st3_def)

lemma free_st3: "free st3 0x1020 = st4"
  by (simp add: eval_defs st3_def st4_def)

lemma malloc_st4: "malloc st4 50 = Some (Ret (st3, 0x1020))"
  by (simp add: eval_defs st3_def st4_def)

lemma realloc_st3_grow: "realloc st3 junk 0x1020 65512 = Some (Ret (st3_grown, 0x1020))"
  by (simp add: eval_defs st3_def st3_grown_def)

lemma realloc_st3_shrink: "realloc st3 junk 0x1020 190 = Some (Ret (st3_moved, 0x31020))"
  by (simp add: eval_defs st3_def st3_moved_def)

lemma realloc_st4: "realloc st4 junk 0x11020 10 = Some (Ret (st5, 0x1020))"
  by (simp add: eval_defs st4_def st5_def)

lemma realloc_st1: "realloc st1 0 0x1020 216 = Some (Ret (st1_moved, 0x11020))"
  by (simp add: eval_defs st1_def st1_moved_def)

lemma calloc_st_full: "calloc st_full 1 16 = Some Fault"
  by (simp add: eval_defs st_full_def)

lemma malloc_st0_odd: "malloc st0_odd 200 = Some (Ret (st1_odd, 0x1020))"
  by (simp add: eval_defs st0_odd_def st1_odd_def)

subsection \<open>Chains\<close>

lemma chain_unique: "chain h a bs \<Longrightarrow> chain h a bs' \<Longrightarrow> bs = bs'"
proof (induction bs arbitrary: a bs')
  case Nil
  then show ?case by (cases bs') auto
next
  case (Cons b bs)
  then show ?case by (cases bs') auto
qed

lemma chain_self_loop: "next_f (h n) = n \<Longrightarrow> n \<noteq> 0 \<Longrightarrow> \<not> chain h n bs"
  by (induction bs) auto

lemma block_list_st3: "block_list st3 [0x1000, 0x11000, 0x21000]"
  by (simp add: block_list_def st3_def align_up_HEADERSIZE heap_simps)

lemma block_list_st4: "block_list st4 [0x1000, 0x11000, 0x21000]"
  by (simp add: block_list_def st4_def align_up_HEADERSIZE heap_simps)

lemma no_block_list_st3_grown: "\<not> block_list st3_grown bs"
proof
  assume b: "block_list st3_grown bs"
  have "chain (hdrs st3_grown) (BlockBase st3_grown) [0x1000, 0x11000, 0x21000]"
    by (simp add: st3_grown_def heap_simps)
  with b have "bs = [0x1000, 0x11000, 0x21000]"
    unfolding block_list_def using chain_unique by blast
  with b show False
    by (simp add: block_list_def st3_grown_def align_up_HEADERSIZE heap_simps)
qed

lemma no_chain_st5: "\<not> chain (hdrs st5) (BlockBase st5) bs"
proof
  assume c: "chain (hdrs st5) (BlockBase st5) bs"
  then obtain bs1 where "chain (hdrs st5) 0x11000 bs1"
    by (cases bs) (auto simp: st5_def heap_simps)
  then obtain bs2 where "chain (hdrs st5) 0x31000 bs2"
    by (cases bs1) (auto simp: st5_def heap_simps)
  moreover have "next_f (hdrs st5 0x31000) = 0x31000" "(0x31000 :: addr) \<noteq> 0"
    by (simp_all add: st5_def heap_simps)
  ultimately show False using chain_self_loop by blast
qed

subsection \<open>The first-fit scan on a chain\<close>

lemma FindFreeBlock_loop_chain:
  "chain h a bs \<Longrightarrow>
   FindFreeBlock_loop h sz l a = Some (last_visited h sz l bs, first_fit h sz bs)"
proof (induction bs arbitrary: l a)
  case Nil
  then show ?case
    by (subst FindFreeBlock_loop.simps) (simp add: last_visited_def first_fit_def)
next
  case (Cons b bs)
  from Cons.prems have a: "a = b" "b \<noteq> 0" and rest: "chain h (next_f (h b)) bs" by auto
  show ?case
  proof (cases "fits h sz b")
    case True
    then show ?thesis unfolding a
      by (subst FindFreeBlock_loop.simps) (simp add: last_visited_def first_fit_def fits_def)
  next
    case False
    from Cons.IH [OF rest, of b]
    have "FindFreeBlock_loop h sz b (next_f (h b)) = Some (last_visited h sz b bs, first_fit h sz bs)" .
    with False a show ?thesis
      by (subst FindFreeBlock_loop.simps) (auto simp: last_visited_def first_fit_def fits_def)
  qed
qed

lemma first_fit_least:
  "sorted_wrt (<) bs \<Longrightarrow> b' \<in> set bs \<Longrightarrow> fits h sz b' \<Longrightarrow> first_fit h sz bs \<le> b'"
proof (induction bs)
  case Nil
  then show ?case by simp
next
  case (Cons b bs)
  show ?case
  proof (cases "fits h sz b")
    case True
    with Cons.prems show ?thesis by (auto simp: first_fit_def)
  next
    case False
    with Cons show ?thesis by (auto simp: first_fit_def)
  qed
qed

lemma first_fit_cases:
  "first_fit h sz bs = 0 \<and> (\<forall>b \<in> set bs. \<not> fits h sz b)
   \<or> first_fit h sz bs \<in> set bs \<and> fits h sz (first_fit h sz bs)"
  by (induction bs) (auto simp: first_fit_def)

lemma malloc_reuse:
  assumes c: "chain (hdrs s) (BlockBase s) bs" and f: "first_fit (hdrs s) sz bs = b" "b \<noteq> 0"
    and sz: "sz \<noteq> 0"
  shows "malloc s sz = Some (Ret (s\<lparr>mem := set_free (mem s) b 0\<rparr>, dataStart b))"
proof -
  from f have "bs \<noteq> []" by (auto simp: first_fit_def)
  with c have "BlockBase s \<noteq> 0" by (cases bs) auto
  moreover from c have "FindFreeBlock s (BlockBase s) sz
      = Some (last_visited (hdrs s) sz (BlockBase s) bs, first_fit (hdrs s) sz bs)"
    unfolding FindFreeBlock_def by (rule FindFreeBlock_loop_chain)
  ultimately show ?thesis using f sz by (simp add: malloc_def malloc_block_def)
qed

subsection \<open>A scan that never returns\<close>

lemma FindFreeBlock_loop_cycle:
  assumes n: "n \<noteq> 0" and self: "next_f (h n) = n" and nofit: "\<not> fits h sz n"
  shows "FindFreeBlock_loop h sz l n = None"
proof (cases "FindFreeBlock_loop h sz l n")
  case None
  then show ?thesis .
next
  case (Some r)
  have "n \<noteq> 0 \<longrightarrow> next_f (h n) = n \<longrightarrow> \<not> fits h sz n \<longrightarrow> False"
  proof (rule FindFreeBlock_loop.raw_induct
      [where P = "\<lambda>h sz l n r. n \<noteq> 0 \<longrightarrow> next_f (h n) = n \<longrightarrow> \<not> fits h sz n \<longrightarrow> False", OF _ Some])
    fix f :: "(addr \<Rightarrow> BlockHeader) \<Rightarrow> 64 word \<Rightarrow> addr \<Rightarrow> addr \<Rightarrow> (addr \<times> addr) option"
    fix h sz l b r
    assume IH: "\<And>h sz l b r. f h sz l b = Some r \<Longrightarrow>
        b \<noteq> 0 \<longrightarrow> next_f (h b) = b \<longrightarrow> \<not> fits h sz b \<longrightarrow> False"
    assume step: "(if b \<noteq> 0 \<and> \<not> (free_f (h b) \<noteq> 0 \<and> sz \<le> size_f (h b))
                   then f h sz b (next_f (h b)) else Some (l, b)) = Some r"
    show "b \<noteq> 0 \<longrightarrow> next_f (h b) = b \<longrightarrow> \<not> fits h sz b \<longrightarrow> False"
    proof (intro impI)
      assume b: "b \<noteq> 0" and s: "next_f (h b) = b" and nf: "\<not> fits h sz b"
      from step b s nf have "f h sz b b = Some r" by (simp add: fits_def)
      from IH [OF this] b s nf show False by simp
    qed
  qed
  with assms show ?thesis by simp
qed

lemma FindFreeBlock_loop_step:
  "b \<noteq> 0 \<Longrightarrow> \<not> fits h sz b \<Longrightarrow>
   FindFreeBlock_loop h sz l b = FindFreeBlock_loop h sz b (next_f (h b))"
  by (subst FindFreeBlock_loop.simps) (simp add: fits_def)

lemma realloc_st3_hangs: "realloc st3 junk 0x1020 100 = None"
  apply (simp add: realloc_def realloc_shrink_def realloc_shrinks_def Let_def GetBlockHeader_def
     align_down.simps GetBlock_def GetBlock_blockSize_def GetBlock_amount_def sbrk_def sbrk_fits_def
     GetBlock_carve_def align_up.simps st3_def malloc_def malloc_block_def FindFreeBlock_def
     heap_simps)
  apply (subst FindFreeBlock_loop_step; simp add: fits_def heap_simps)
  apply (simp add: FindFreeBlock_loop_cycle fits_def heap_simps)
  done

subsection \<open>Rounding up without wrap-around\<close>

lemma up_target_aligned: "x mod 16 = 0 \<Longrightarrow> up_target x = unat x"
  by (simp add: up_target_def unat_mod word_unat_eq_iff)

lemma up_target_step:
  assumes a: "x mod 16 \<noteq> 0" and t: "up_target x < 2 ^ 64"
  shows "up_target (x + 1) = up_target x"
proof -
  define r where "r = unat x mod 16"
  have "unat (x mod 16) \<noteq> 0" using a by (simp only: unat_eq_0 not_False_eq_True)
  then have r0: "r \<noteq> 0" by (simp add: r_def unat_mod)
  have r16: "r < 16" by (simp add: r_def)
  have k: "(16 - r) mod 16 = 16 - r" using r0 r16 by simp
  from t have "unat x + (16 - r) < 2 ^ 64" by (simp add: up_target_def r_def[symmetric] k)
  with r16 have "unat x + 1 < 2 ^ 64" by simp
  then have u: "unat (x + 1) = unat x + 1" by (simp add: unat_add_lem [THEN iffD1])
  have "Suc (unat x) mod 16 = (if Suc r = 16 then 0 else Suc r)"
    unfolding r_def by (rule mod_Suc)
  then have m: "unat (x + 1) mod 16 = (if Suc r = 16 then 0 else Suc r)" by (simp add: u)
  have key: "(16 - (if Suc r = 16 then 0 else Suc r)) mod 16 + 1 = 16 - r"
    using r0 r16 by (cases "Suc r = 16") auto
  have "up_target (x + 1) = unat (x + 1) + (16 - unat (x + 1) mod 16) mod 16"
    by (simp only: up_target_def)
  also have "\<dots> = unat (x + 1) + (16 - (if Suc r = 16 then 0 else Suc r)) mod 16"
    by (simp only: m)
  also have "\<dots> = unat x + 1 + (16 - (if Suc r = 16 then 0 else Suc r)) mod 16"
    by (simp only: u)
  also have "\<dots> = unat x + ((16 - (if Suc r = 16 then 0 else Suc r)) mod 16 + 1)"
    by (simp only: ac_simps)
  also have "\<dots> = unat x + (16 - r)" by (simp only: key)
  also have "\<dots> = up_target x" by (simp only: up_target_def r_def[symmetric] k)
  finally show ?thesis .
qed

lemma unat_align_up: "up_target x < 2 ^ 64 \<Longrightarrow> unat (align_up x) = up_target x"
proof (induction x rule: align_up.induct)
  case (1 x)
  show ?case
  proof (cases "x mod 16 = 0")
    case True
    then show ?thesis by (simp add: align_up.simps [of x] up_target_aligned)
  next
    case False
    with "1.prems" have s: "up_target (x + 1) = up_target x" by (simp add: up_target_step)
    with "1.IH" False "1.prems" have "unat (align_up (x + 1)) = up_target x" by simp
    with False show ?thesis by (simp add: align_up.simps [of x])
  qed
qed

lemma up_target_bounds: "unat x \<le> up_target x \<and> up_target x \<le> unat x + 15"
proof -
  define r where "r = unat x mod 16"
  have "r < 16" by (simp add: r_def)
  then have "(16 - r) mod 16 \<le> 15" by (cases "r = 0") auto
  then show ?thesis by (simp add: up_target_def r_def[symmetric])
qed

lemma align_up_bounds:
  assumes "unat x + 15 < 2 ^ 64"
  shows "unat x \<le> unat (align_up x)" and "unat (align_up x) \<le> unat x + 15"
proof -
  from up_target_bounds [of x] assms have "up_target x < 2 ^ 64" by simp
  then have "unat (align_up x) = up_target x" by (rule unat_align_up)
  with up_target_bounds [of x] show "unat x \<le> unat (align_up x)" "unat (align_up x) \<le> unat x + 15"
    by simp_all
qed

lemma GetBlock_blockSize_bounds:
  assumes "unat sz < 2 ^ 62"
  shows "unat sz + 32 \<le> unat (GetBlock_blockSize sz)"
    and "unat (GetBlock_blockSize sz) \<le> unat sz + 47"
proof -
  from assms have "unat sz + unat (32 :: 64 word) < 2 ^ 64" by simp
  then have u: "unat (sz + 32) = unat sz + 32" by (simp add: unat_add_lem [THEN iffD1])
  with assms have "unat (sz + 32) + 15 < 2 ^ 64" by simp
  from align_up_bounds [OF this] u
  show "unat sz + 32 \<le> unat (GetBlock_blockSize sz)" "unat (GetBlock_blockSize sz) \<le> unat sz + 47"
    by (simp_all add: GetBlock_blockSize_eq)
qed

lemma GetBlock_amount_bounds:
  assumes "unat sz < 2 ^ 62"
  shows "unat sz + 32 \<le> unat (GetBlock_amount sz)" and "unat (GetBlock_amount sz) < 2 ^ 63"
    and "unat (GetBlock_blockSize sz) \<le> unat (GetBlock_amount sz)"
proof -
  note b = GetBlock_blockSize_bounds [OF assms]
  show "unat (GetBlock_blockSize sz) \<le> unat (GetBlock_amount sz)"
    by (auto simp: GetBlock_amount_def word_less_nat_alt)
  with b(1) show "unat sz + 32 \<le> unat (GetBlock_amount sz)" by simp
  from b(2) assms show "unat (GetBlock_amount sz) < 2 ^ 63"
    by (auto simp: GetBlock_amount_def)
qed

subsection \<open>The list invariant under malloc, free and calloc\<close>

lemma chain_cong:
  "\<forall>b \<in> set bs. next_f (h' b) = next_f (h b) \<Longrightarrow> chain h' a bs = chain h a bs"
  by (induction bs arbitrary: a) auto

lemma no_overlap_cong:
  "\<forall>b \<in> set bs. size_f (h' b) = size_f (h b) \<Longrightarrow> no_overlap h' bs = no_overlap h bs"
  by (induction h bs rule: no_overlap.induct) auto

lemma chain_snoc:
  assumes "chain h a bs" and "bs \<noteq> []" and "n \<noteq> 0"
    and "\<forall>b \<in> set (butlast bs). next_f (h' b) = next_f (h b)"
    and "next_f (h' (last bs)) = n" and "next_f (h' n) = 0"
  shows "chain h' a (bs @ [n])"
  using assms
proof (induction bs arbitrary: a)
  case Nil
  then show ?case by simp
next
  case (Cons b bs)
  show ?case
  proof (cases "bs = []")
    case True
    with Cons.prems show ?thesis by auto
  next
    case False
    with Cons.prems have "chain h (next_f (h b)) bs" "next_f (h' b) = next_f (h b)"
      "\<forall>b \<in> set (butlast bs). next_f (h' b) = next_f (h b)" "next_f (h' (last bs)) = n"
      by simp_all
    with Cons.IH [of "next_f (h b)"] False Cons.prems show ?thesis by auto
  qed
qed

lemma no_overlap_snoc:
  assumes "no_overlap h bs" and "bs \<noteq> []"
    and "unat (last bs) + unat (align_up HEADERSIZE) + unat (size_f (h (last bs))) \<le> unat n"
  shows "no_overlap h (bs @ [n])"
  using assms by (induction h bs rule: no_overlap.induct) simp_all

lemma sint_small:
  assumes "unat (n :: 64 word) < 2 ^ 63"
  shows "sint n = int (unat n)"
proof -
  have u: "uint n = int (unat n)" by (rule uint_nat)
  have "int (unat n) < int (2 ^ 63)" using assms by (simp only: of_nat_less_iff)
  moreover have "int (2 ^ 63) = 2 ^ 63" by simp
  ultimately have "uint n < 2 ^ 63" by (simp only: u)
  moreover have "- (2 ^ 63) \<le> (0 :: int)" by simp
  then have "- (2 ^ 63) \<le> uint n" using uint_ge_0 [of n] by (rule order_trans)
  ultimately have "signed_take_bit 63 (uint n) = uint n"
    by (intro signed_take_bit_int_eq_self)
  moreover have "sint n = signed_take_bit 63 (uint n)" using sint_uint [of n] by simp
  ultimately show ?thesis using u by (simp only:)
qed

lemma sbrk_fits_unat:
  assumes "sbrk_fits s n" and "unat n < 2 ^ 63"
  shows "unat (brk s) + unat n \<le> unat (brk_hi s)"
proof -
  from assms(1) have "uint (brk s) + sint n \<le> uint (brk_hi s)" by (simp only: sbrk_fits_def)
  then have "int (unat (brk s)) + int (unat n) \<le> int (unat (brk_hi s))"
    by (simp only: sint_small [OF assms(2)] uint_nat)
  then show ?thesis by linarith
qed

lemma chain_nonzero: "chain h a bs \<Longrightarrow> 0 \<notin> set bs"
  by (induction bs arbitrary: a) auto

lemma chain_base: "chain h a bs \<Longrightarrow> bs \<noteq> [] \<Longrightarrow> a = hd bs"
  by (cases bs) auto

lemma last_not_in_butlast: "distinct bs \<Longrightarrow> bs \<noteq> [] \<Longrightarrow> last bs \<notin> set (butlast bs)"
proof -
  assume d: "distinct bs" and n: "bs \<noteq> []"
  from n have "bs = butlast bs @ [last bs]" by simp
  with d have "distinct (butlast bs @ [last bs])" by simp
  then show ?thesis by simp
qed

lemma no_overlap_sorted:
  assumes "sorted_wrt (<) bs" and "no_overlap h bs" and "x \<in> set bs" and "y \<in> set bs"
    and "x < y"
  shows "unat x + unat (align_up HEADERSIZE) + unat (size_f (h x)) \<le> unat y"
  using assms
proof (induction bs)
  case Nil
  then show ?case by simp
next
  case (Cons b bs)
  from Cons.prems(1) have lt: "\<forall>z \<in> set bs. b < z" and so: "sorted_wrt (<) bs" by simp_all
  from Cons.prems(2) have no: "no_overlap h bs" by (cases bs) simp_all
  show ?case
  proof (cases "x = b")
    case True
    with Cons.prems(4,5) have y: "y \<in> set bs" by auto
    then obtain b2 r where bs: "bs = b2 # r" by (cases bs) auto
    with Cons.prems(2) have "unat b + unat (align_up HEADERSIZE) + unat (size_f (h b)) \<le> unat b2"
      by simp
    moreover from y bs so have "b2 \<le> y" by auto
    then have "unat b2 \<le> unat y" by (simp only: word_le_nat_alt)
    ultimately show ?thesis using True by simp
  next
    case False
    with Cons.prems(3) have x: "x \<in> set bs" by simp
    with lt have "b < x" by blast
    with Cons.prems(5) have "y \<noteq> b" by auto
    with Cons.prems(4) have "y \<in> set bs" by simp
    from Cons.IH [OF so no x this Cons.prems(5)] show ?thesis .
  qed
qed

lemma apart_nat:
  assumes "unat x + 24 \<le> unat y" and "unat y + 24 \<le> 2 ^ 64"
  shows "apart x y"
proof -
  have "unat (y - x) = (if unat x \<le> unat y then unat y - unat x else unat y + 2 ^ 64 - unat x)"
    "unat (x - y) = (if unat y \<le> unat x then unat x - unat y else unat x + 2 ^ 64 - unat y)"
    by (simp_all add: unat_sub_if')
  with assms show ?thesis by (auto simp: apart_def)
qed

lemma blocks_apart:
  assumes so: "sorted_wrt (<) bs" and no: "no_overlap h bs"
    and below: "\<forall>x \<in> set bs. unat x + unat (align_up HEADERSIZE) + unat (size_f (h x)) \<le> N"
    and N: "N < 2 ^ 63"
    and x: "x \<in> set bs" and y: "y \<in> set bs" and ne: "x \<noteq> y"
  shows "apart x y"
proof -
  have a32: "unat (align_up HEADERSIZE) = 32" by (simp add: align_up_HEADERSIZE)
  have one: "apart u v" if u: "u \<in> set bs" and v: "v \<in> set bs" and lt: "u < v" for u v
  proof -
    from no_overlap_sorted [OF so no u v lt] a32 have "unat u + 24 \<le> unat v" by simp
    moreover from below v a32 N have "unat v + 24 \<le> 2 ^ 64" by fastforce
    ultimately show ?thesis by (rule apart_nat)
  qed
  from ne have "x < y \<or> y < x" by auto
  then show ?thesis using one [OF x y] one [OF y x] by (auto intro: apart_sym)
qed

lemma carve_list:
  fixes h h2 :: "addr \<Rightarrow> BlockHeader"
  assumes c: "chain h base bs" and so: "sorted_wrt (<) bs" and no: "no_overlap h bs"
    and below: "\<forall>x \<in> set bs. unat x + unat (align_up HEADERSIZE) + unat (size_f (h x)) \<le> unat n"
    and n0: "n \<noteq> 0"
    and keep: "\<forall>x \<in> set (butlast bs). h2 x = h x"
    and lastb: "bs \<noteq> [] \<longrightarrow> h2 (last bs) = (h (last bs))\<lparr>next_f := n\<rparr>"
    and new: "h2 n = \<lparr>size_f = sz, free_f = 0, next_f = 0\<rparr>"
  shows "chain h2 (if bs = [] then n else base) (bs @ [n])"
    and "sorted_wrt (<) (bs @ [n])" and "no_overlap h2 (bs @ [n])"
    and "\<forall>x \<in> set bs. size_f (h2 x) = size_f (h x)" and "size_f (h2 n) = sz"
    and "n \<notin> set bs"
proof -
  have lt: "\<forall>x \<in> set bs. x < n"
  proof
    fix x assume "x \<in> set bs"
    with below have "unat x + unat (align_up HEADERSIZE) + unat (size_f (h x)) \<le> unat n" by blast
    moreover have "unat (align_up HEADERSIZE) = 32" by (simp add: align_up_HEADERSIZE)
    ultimately have "unat x < unat n" by simp
    then show "x < n" by (simp only: word_less_nat_alt)
  qed
  then show nin: "n \<notin> set bs" by auto
  from lt so show "sorted_wrt (<) (bs @ [n])" by (simp add: sorted_wrt_append)
  have sizes: "size_f (h2 x) = size_f (h x)" if "x \<in> set bs" for x
  proof (cases "x = last bs")
    case True
    from that have "bs \<noteq> []" by auto
    with lastb True show ?thesis by simp
  next
    case False
    from that have ne: "bs \<noteq> []" by auto
    then have "bs = butlast bs @ [last bs]" by simp
    then have "set bs = set (butlast bs) \<union> {last bs}" by (metis list.set(1,2) set_append Un_insert_right sup_bot.right_neutral)
    with that False have "x \<in> set (butlast bs)" by auto
    with keep show ?thesis by simp
  qed
  then show "\<forall>x \<in> set bs. size_f (h2 x) = size_f (h x)" by blast
  show "size_f (h2 n) = sz" by (simp add: new)
  show "chain h2 (if bs = [] then n else base) (bs @ [n])"
  proof (cases "bs = []")
    case True
    with n0 show ?thesis by (simp add: new)
  next
    case False
    from keep have "\<forall>b \<in> set (butlast bs). next_f (h2 b) = next_f (h b)" by simp
    moreover from lastb False have "next_f (h2 (last bs)) = n" by simp
    moreover have "next_f (h2 n) = 0" by (simp add: new)
    ultimately have "chain h2 base (bs @ [n])" using c False n0 by (intro chain_snoc)
    with False show ?thesis by simp
  qed
  show "no_overlap h2 (bs @ [n])"
  proof (cases "bs = []")
    case True
    then show ?thesis by simp
  next
    case False
    from sizes have "no_overlap h2 bs = no_overlap h bs" by (intro no_overlap_cong) blast
    with no have "no_overlap h2 bs" by simp
    moreover from below False sizes
    have "unat (last bs) + unat (align_up HEADERSIZE) + unat (size_f (h2 (last bs))) \<le> unat n"
      using last_in_set [OF False] by simp
    ultimately show ?thesis using False by (intro no_overlap_snoc)
  qed
qed

lemma heap_inv_cong:
  assumes "\<forall>x \<in> set bs. hdr m' x = hdrs s x"
  shows "heap_inv (s\<lparr>mem := m'\<rparr>) bs = heap_inv s bs"
proof -
  from assms have n: "\<forall>x \<in> set bs. next_f (hdr m' x) = next_f (hdrs s x)"
    and z: "\<forall>x \<in> set bs. size_f (hdr m' x) = size_f (hdrs s x)" by simp_all
  from n have "chain (hdr m') (BlockBase s) bs = chain (hdrs s) (BlockBase s) bs" by (rule chain_cong)
  moreover from z have "no_overlap (hdr m') bs = no_overlap (hdrs s) bs" by (rule no_overlap_cong)
  ultimately show ?thesis using z by (simp add: heap_inv_def block_list_def within_break_def)
qed

lemma heap_inv_apart:
  assumes "heap_inv s bs" and "x \<in> set bs" and "y \<in> set bs" and "x \<noteq> y"
  shows "apart x y"
proof -
  from assms(1) have so: "sorted_wrt (<) bs" and no: "no_overlap (hdrs s) bs"
    and below: "\<forall>x \<in> set bs. unat x + unat (align_up HEADERSIZE) + unat (size_f (hdrs s x)) \<le> unat (brk s)"
    and "brk s \<le> brk_hi s" and "unat (brk_hi s) < 2 ^ 63"
    by (simp_all add: heap_inv_def block_list_def within_break_def)
  then have "unat (brk s) < 2 ^ 63" by (simp add: word_le_nat_alt)
  from blocks_apart [OF so no below this assms(2,3,4)] show ?thesis .
qed

lemma heap_inv_set_free:
  assumes inv: "heap_inv s bs" and b: "b \<in> set bs"
  shows "heap_inv (s\<lparr>mem := set_free (mem s) b v\<rparr>) bs"
proof -
  let ?s = "s\<lparr>mem := set_free (mem s) b v\<rparr>"
  have v: "hdrs ?s x = (if x = b then (hdrs s x)\<lparr>free_f := v\<rparr> else hdrs s x)" if "x \<in> set bs" for x
  proof (cases "x = b")
    case True
    then show ?thesis by simp
  next
    case False
    with heap_inv_apart [OF inv b that] have "apart b x" by simp
    with False show ?thesis by (simp add: hdr_set_free_apart)
  qed
  then have n: "\<forall>x \<in> set bs. next_f (hdrs ?s x) = next_f (hdrs s x)"
    and z: "\<forall>x \<in> set bs. size_f (hdrs ?s x) = size_f (hdrs s x)" by simp_all
  from n have "chain (hdrs ?s) (BlockBase s) bs = chain (hdrs s) (BlockBase s) bs" by (rule chain_cong)
  moreover from z have "no_overlap (hdrs ?s) bs = no_overlap (hdrs s) bs" by (rule no_overlap_cong)
  ultimately show ?thesis using inv z by (simp add: heap_inv_def block_list_def within_break_def)
qed

lemma free_heap_inv:
  "heap_inv s bs \<Longrightarrow> GetBlockHeader p \<in> set bs \<Longrightarrow> heap_inv (free s p) bs"
  by (simp add: free_def Let_def heap_inv_set_free)

lemma GetBlock_heap_inv:
  assumes inv: "heap_inv s bs" and sz: "unat sz < 2 ^ 62"
    and l: "l = (if bs = [] then 0 else last bs)"
    and run: "GetBlock s l sz = (s', b)"
  shows "(b = 0 \<and> s' = s)
       \<or> (b \<noteq> 0 \<and> b \<notin> set bs \<and> BlockBase s' = BlockBase s
           \<and> size_f (hdrs s' b) = sz
           \<and> heap_inv (s'\<lparr>BlockBase := if bs = [] then b else BlockBase s\<rparr>) (bs @ [b]))"
proof -
  define amt where "amt = GetBlock_amount sz"
  note ab = GetBlock_amount_bounds [OF sz, folded amt_def]
  note bb = GetBlock_blockSize_bounds [OF sz]
  have a32: "unat (align_up HEADERSIZE) = 32" by (simp add: align_up_HEADERSIZE)
  from inv have bl: "chain (hdrs s) (BlockBase s) bs" "sorted_wrt (<) bs" "no_overlap (hdrs s) bs"
    and below: "\<forall>x \<in> set bs. unat x + unat (align_up HEADERSIZE) + unat (size_f (hdrs s x)) \<le> unat (brk s)"
    and al: "\<forall>x \<in> set bs. aligned x" "aligned (brk s)"
    and top: "CurrentTopBreak s = 0 \<or> CurrentTopBreak s = brk s"
    and brk0: "brk s \<noteq> 0" and brkhi: "brk s \<le> brk_hi s" and hi: "unat (brk_hi s) < 2 ^ 63"
    by (simp_all add: heap_inv_def block_list_def within_break_def)
  from brkhi hi have brk63: "unat (brk s) < 2 ^ 63" by (simp add: word_le_nat_alt)
  have nowrap: "unat (brk s + x) = unat (brk s) + unat x" if "unat x < 2 ^ 63" for x
  proof -
    from that brk63 have "unat (brk s) + unat x < 2 ^ 64" by simp
    then show ?thesis by (simp add: unat_add_lem [THEN iffD1])
  qed
  from GetBlock_disj [of s l sz] show ?thesis
  proof (elim disjE conjE)
    assume "GetBlock s l sz = (s, 0)"
    with run show ?thesis by simp
  next
    assume "brk s + GetBlock_amount sz = - 1"
    then have "unat (brk s + amt) = unat (- 1 :: 64 word)" by (simp add: amt_def)
    moreover have "unat (- 1 :: 64 word) = 2 ^ 64 - 1" by (simp add: unsigned_minus_1_eq_mask mask_eq_exp_minus_1)
    ultimately have "unat (brk s) + unat amt = 2 ^ 64 - 1" using nowrap [OF ab(2)] by simp
    with brk63 ab(2) show ?thesis by simp
  next
    assume "CurrentTopBreak s \<noteq> 0" and n: "\<not> CurrentTopBreak s < brk s + GetBlock_blockSize sz"
    with top have "CurrentTopBreak s = brk s" by simp
    moreover from bb sz have "unat (GetBlock_blockSize sz) < 2 ^ 63" by simp
    from nowrap [OF this] bb(1) have "unat (brk s) < unat (brk s + GetBlock_blockSize sz)" by simp
    then have "brk s < brk s + GetBlock_blockSize sz" by (simp only: word_less_nat_alt)
    ultimately show ?thesis using n by simp
  next
    let ?s2 = "s\<lparr>brk := brk s + GetBlock_amount sz,
            CurrentTopBreak := brk s + GetBlock_amount sz,
            CurrentFreeSpace := brk s\<rparr>"
    assume g: "GetBlock s l sz = GetBlock_carve ?s2 l sz" and fits: "sbrk_fits s (GetBlock_amount sz)"
    define m1 where "m1 = (if l \<noteq> 0 then set_next (mem s) l (brk s) else mem s)"
    define m4 where "m4 = set_free (set_next (set_size m1 (brk s) sz) (brk s) 0) (brk s) 0"
    from g run have s': "s' = ?s2\<lparr>mem := m4\<rparr>" and b: "b = brk s"
      by (simp_all add: GetBlock_carve_def Let_def m1_def m4_def)
    have far: "apart (brk s) x" if "x \<in> set bs" for x
    proof -
      from below that a32 have "unat x + 24 \<le> unat (brk s)" by fastforce
      moreover from brk63 have "unat (brk s) + 24 \<le> 2 ^ 64" by simp
      ultimately have "apart x (brk s)" by (rule apart_nat)
      then show ?thesis by (rule apart_sym)
    qed
    have v4: "hdr m4 x = hdr m1 x" if "x \<in> set bs" for x
      using far [OF that]
      by (simp add: m4_def hdr_set_free_apart hdr_set_next_apart hdr_set_size_apart)
    have new: "hdr m4 (brk s) = \<lparr>size_f = sz, free_f = 0, next_f = 0\<rparr>"
      by (simp add: m4_def)
    have keep: "\<forall>x \<in> set (butlast bs). hdr m4 x = hdrs s x"
    proof
      fix x assume x: "x \<in> set (butlast bs)"
      then have xin: "x \<in> set bs" by (rule in_set_butlastD)
      then have ne: "bs \<noteq> []" by auto
      from bl(2) have d: "distinct bs" by (simp add: strict_sorted_iff)
      from x last_not_in_butlast [OF d ne] have xl: "x \<noteq> last bs" by auto
      from ne l have l': "l = last bs" by simp
      from heap_inv_apart [OF inv last_in_set [OF ne] xin] xl have "apart l x" by (simp add: l')
      then have "hdr m1 x = hdrs s x" by (simp add: m1_def hdr_set_next_apart)
      with v4 [OF xin] show "hdr m4 x = hdrs s x" by simp
    qed
    have lastb: "bs \<noteq> [] \<longrightarrow> hdr m4 (last bs) = (hdrs s (last bs))\<lparr>next_f := brk s\<rparr>"
    proof
      assume ne: "bs \<noteq> []"
      from chain_nonzero [OF bl(1)] last_in_set [OF ne] have "last bs \<noteq> 0" by metis
      with ne l have "l = last bs" "l \<noteq> 0" by simp_all
      then have "hdr m1 (last bs) = (hdrs s (last bs))\<lparr>next_f := brk s\<rparr>" by (simp add: m1_def)
      with v4 [OF last_in_set [OF ne]] show "hdr m4 (last bs) = (hdrs s (last bs))\<lparr>next_f := brk s\<rparr>"
        by simp
    qed
    note cl = carve_list [OF bl below brk0 keep lastb new]
    have newbrk: "unat (brk s + amt) = unat (brk s) + unat amt" using ab(2) by (rule nowrap)
    from sbrk_fits_unat [OF fits [folded amt_def] ab(2)]
    have le_hi: "unat (brk s) + unat amt \<le> unat (brk_hi s)" .
    let ?s'' = "s'\<lparr>BlockBase := if bs = [] then b else BlockBase s\<rparr>"
    have "block_list ?s'' (bs @ [b])"
      using cl(1,2,3) by (cases "bs = []") (simp_all add: block_list_def s' b)
    moreover have "within_break ?s'' (bs @ [b])"
      unfolding within_break_def
    proof
      fix x assume "x \<in> set (bs @ [b])"
      then consider "x \<in> set bs" | "x = brk s" by (auto simp: b)
      then show "unat x + unat (align_up HEADERSIZE) + unat (size_f (hdrs ?s'' x)) \<le> unat (brk ?s'')"
      proof cases
        case 1
        with cl(4) have "size_f (hdr m4 x) = size_f (hdrs s x)" by blast
        moreover from 1 below
        have "unat x + unat (align_up HEADERSIZE) + unat (size_f (hdrs s x)) \<le> unat (brk s)" by blast
        ultimately show ?thesis using newbrk by (simp add: s' amt_def)
      next
        case 2
        with cl(5) ab(1) newbrk a32 show ?thesis by (simp add: s' amt_def)
      qed
    qed
    moreover from al have "\<forall>x \<in> set (bs @ [b]). aligned x" by (simp add: b)
    moreover from al(2) have "aligned (brk ?s'')"
      by (simp add: s' aligned_sum GetBlock_amount_aligned)
    moreover from al(2) have "aligned (CurrentFreeSpace ?s'')" by (simp add: s')
    moreover have "CurrentTopBreak ?s'' = brk ?s''" by (simp add: s')
    moreover from newbrk brk0 have "brk ?s'' \<noteq> 0"
      by (simp add: s' amt_def unat_eq_0 [symmetric] del: unat_eq_0)
    moreover from newbrk le_hi have "brk ?s'' \<le> brk_hi ?s''"
      by (simp add: s' amt_def word_le_nat_alt)
    moreover from hi have "unat (brk_hi ?s'') < 2 ^ 63" by (simp add: s')
    ultimately have "heap_inv ?s'' (bs @ [b])" by (simp add: heap_inv_def)
    moreover have "BlockBase s' = BlockBase s" by (simp add: s')
    moreover have "size_f (hdrs s' b) = sz" by (simp add: s' b new)
    ultimately show ?thesis using brk0 cl(6) by (simp add: b)
  qed
qed

lemma last_visited_no_fit:
  assumes "\<forall>b \<in> set bs. \<not> fits h sz b" and "bs \<noteq> []"
  shows "last_visited h sz l bs = last bs"
proof -
  from assms(1) have t: "takeWhile (\<lambda>b. \<not> fits h sz b) bs = bs"
    by (intro takeWhile_eq_all_conv [THEN iffD2]) blast
  show ?thesis unfolding last_visited_def t using assms(2) by simp
qed

lemma in_range_nat:
  fixes y p :: "64 word"
  assumes "unat (y - p) < k" and "unat p + k \<le> 2 ^ 64"
  shows "unat p \<le> unat y \<and> unat y < unat p + k"
proof -
  have "unat (y - p) = (if unat p \<le> unat y then unat y - unat p else unat y + 2 ^ 64 - unat p)"
    by (simp add: unat_sub_if')
  with assms show ?thesis by (auto split: if_splits)
qed

lemma malloc_block_heap_inv:
  assumes inv: "heap_inv s bs" and sz: "unat sz < 2 ^ 62"
    and run: "malloc_block s sz = Some (s', b)"
  shows "(b = 0 \<and> s' = s)
       \<or> (b \<noteq> 0 \<and> (\<exists>bs'. heap_inv s' bs' \<and> b \<in> set bs' \<and> sz \<le> size_f (hdrs s' b)))"
proof (cases "BlockBase s = 0")
  case True
  from inv have c: "chain (hdrs s) (BlockBase s) bs" by (simp add: heap_inv_def block_list_def)
  with True have e: "bs = []" by (cases bs) auto
  obtain s1 b1 where g: "GetBlock s 0 sz = (s1, b1)" by (cases "GetBlock s 0 sz")
  from e have l: "0 = (if bs = [] then 0 else last bs)" by simp
  from GetBlock_heap_inv [OF inv sz l g] show ?thesis
  proof (elim disjE conjE)
    assume "b1 = 0" "s1 = s"
    with True run g have "s' = s" "b = 0" by (auto simp: malloc_block_def)
    then show ?thesis by simp
  next
    assume b1: "b1 \<noteq> 0" and z: "size_f (hdrs s1 b1) = sz"
      and h: "heap_inv (s1\<lparr>BlockBase := if bs = [] then b1 else BlockBase s\<rparr>) (bs @ [b1])"
    from True run g b1 have "s' = s1\<lparr>BlockBase := b1\<rparr>" "b = b1" by (auto simp: malloc_block_def)
    with h e z b1 have "heap_inv s' [b]" "b \<in> set [b]" "sz \<le> size_f (hdrs s' b)" "b \<noteq> 0" by simp_all
    then show ?thesis by blast
  qed
next
  case False
  from inv have c: "chain (hdrs s) (BlockBase s) bs" by (simp add: heap_inv_def block_list_def)
  with False have ne: "bs \<noteq> []" by (cases bs) auto
  from c have f: "FindFreeBlock s (BlockBase s) sz
      = Some (last_visited (hdrs s) sz (BlockBase s) bs, first_fit (hdrs s) sz bs)"
    unfolding FindFreeBlock_def by (rule FindFreeBlock_loop_chain)
  show ?thesis
  proof (cases "first_fit (hdrs s) sz bs = 0")
    case found: False
    define b0 where "b0 = first_fit (hdrs s) sz bs"
    from found first_fit_cases [of "hdrs s" sz bs]
    have b0: "b0 \<in> set bs" "fits (hdrs s) sz b0" "b0 \<noteq> 0" by (auto simp: b0_def)
    from False run f found have r: "s' = s\<lparr>mem := set_free (mem s) b0 0\<rparr>" "b = b0"
      by (auto simp: malloc_block_def b0_def)
    from heap_inv_set_free [OF inv b0(1)] have "heap_inv s' bs" by (simp add: r)
    moreover from b0(2) have "sz \<le> size_f (hdrs s' b)" by (simp add: r fits_def)
    ultimately show ?thesis using b0 r by blast
  next
    case none: True
    with first_fit_cases [of "hdrs s" sz bs] chain_nonzero [OF c]
    have "\<forall>b \<in> set bs. \<not> fits (hdrs s) sz b" by auto
    from last_visited_no_fit [OF this ne]
    have lv: "last_visited (hdrs s) sz (BlockBase s) bs = last bs" .
    with False run f none have g: "GetBlock s (last bs) sz = (s', b)"
      by (simp add: malloc_block_def)
    from ne have l: "last bs = (if bs = [] then 0 else last bs)" by simp
    from GetBlock_heap_inv [OF inv sz l g] show ?thesis
    proof (elim disjE conjE)
      assume "b = 0" "s' = s"
      then show ?thesis by simp
    next
      assume "BlockBase s' = BlockBase s" and b: "b \<noteq> 0" and z: "size_f (hdrs s' b) = sz"
        and "heap_inv (s'\<lparr>BlockBase := if bs = [] then b else BlockBase s\<rparr>) (bs @ [b])"
      with ne have "heap_inv (s'\<lparr>BlockBase := BlockBase s'\<rparr>) (bs @ [b])" by simp
      then have "heap_inv s' (bs @ [b])" by simp
      moreover have "b \<in> set (bs @ [b])" by simp
      ultimately show ?thesis using b z by (metis order_refl)
    qed
  qed
qed

lemma heap_inv_block:
  assumes "heap_inv s bs" and "b \<in> set bs"
  shows "aligned b" and "dataStart b = b + 32" and "GetBlockHeader (b + 32) = b"
    and "unat (b + 32) = unat b + 32"
    and "unat b + 32 + unat (size_f (hdrs s b)) \<le> unat (brk s)" and "unat (brk s) < 2 ^ 63"
proof -
  from assms show a: "aligned b" by (simp add: heap_inv_def)
  then show "dataStart b = b + 32" by (rule dataStart_aligned_block)
  from a show "GetBlockHeader (b + 32) = b" by (rule GetBlockHeader_aligned_block)
  have a32: "unat (align_up HEADERSIZE) = 32" by (simp add: align_up_HEADERSIZE)
  from assms a32 show w: "unat b + 32 + unat (size_f (hdrs s b)) \<le> unat (brk s)"
    by (fastforce simp: heap_inv_def within_break_def)
  from assms(1) have "brk s \<le> brk_hi s" "unat (brk_hi s) < 2 ^ 63" by (simp_all add: heap_inv_def)
  then show k: "unat (brk s) < 2 ^ 63" by (simp add: word_le_nat_alt)
  with w have "unat b + unat (32 :: 64 word) < 2 ^ 64" by simp
  then show "unat (b + 32) = unat b + 32" by (simp add: unat_add_lem [THEN iffD1])
qed

lemma malloc_heap_inv:
  assumes "heap_inv s bs" and "unat sz < 2 ^ 62" and "malloc s sz = Some (Ret (s', p))"
  shows "(p = 0 \<and> s' = s)
       \<or> (p \<noteq> 0 \<and> (\<exists>bs'. heap_inv s' bs' \<and> GetBlockHeader p \<in> set bs'
             \<and> p = GetBlockHeader p + 32 \<and> sz \<le> size_f (hdrs s' (GetBlockHeader p))))"
proof (cases "sz = 0")
  case True
  with assms show ?thesis by (auto simp: malloc_def)
next
  case False
  with assms(3) obtain b where m: "malloc_block s sz = Some (s', b)"
    and p: "p = (if b = 0 then 0 else dataStart b)"
    by (auto simp: malloc_def split: option.splits if_splits)
  from malloc_block_heap_inv [OF assms(1,2) m] show ?thesis
  proof (elim disjE conjE exE)
    assume "b = 0" "s' = s"
    with p show ?thesis by simp
  next
    fix bs'
    assume b: "b \<noteq> 0" and h: "heap_inv s' bs'" and i: "b \<in> set bs'" and z: "sz \<le> size_f (hdrs s' b)"
    note hb = heap_inv_block [OF h i]
    from b p hb(2) have p': "p = b + 32" by simp
    with hb(3) have g: "GetBlockHeader p = b" by simp
    from hb(4) p' have "unat p \<noteq> 0" by simp
    then have "p \<noteq> 0" by (simp only: unat_eq_0 not_False_eq_True)
    with h i z g p' show ?thesis by auto
  qed
qed

lemma malloc_returns:
  assumes "heap_inv s bs"
  shows "\<exists>s' p. malloc s sz = Some (Ret (s', p))"
proof -
  from assms have c: "chain (hdrs s) (BlockBase s) bs" by (simp add: heap_inv_def block_list_def)
  then have "FindFreeBlock s (BlockBase s) sz
      = Some (last_visited (hdrs s) sz (BlockBase s) bs, first_fit (hdrs s) sz bs)"
    unfolding FindFreeBlock_def by (rule FindFreeBlock_loop_chain)
  then have "\<exists>r. malloc_block s sz = Some r"
    by (cases "BlockBase s = 0") (simp_all add: malloc_block_def split_def Let_def)
  then obtain s1 b where "malloc_block s sz = Some (s1, b)" by auto
  then show ?thesis by (simp add: malloc_def)
qed

lemma memset_outside_headers:
  assumes inv: "heap_inv s bs" and b: "b \<in> set bs" and n: "n \<le> size_f (hdrs s b)"
    and x: "x \<in> set bs"
  shows "hdr (memset (mem s) (b + 32) c n) x = hdrs s x"
proof (rule hdr_cong)
  fix y assume y: "unat (y - x) < 24"
  note hb = heap_inv_block [OF inv b]
  note hx = heap_inv_block [OF inv x]
  have a32: "unat (align_up HEADERSIZE) = 32" by (simp add: align_up_HEADERSIZE)
  from inv have so: "sorted_wrt (<) bs" and no: "no_overlap (hdrs s) bs"
    by (simp_all add: heap_inv_def block_list_def)
  from n have n': "unat n \<le> unat (size_f (hdrs s b))" by (simp only: word_le_nat_alt)
  from hx(5,6) have "unat x + 24 \<le> 2 ^ 64" by simp
  from in_range_nat [OF y this] have yr: "unat x \<le> unat y" "unat y < unat x + 24" by simp_all
  have "\<not> y - (b + 32) < n"
  proof
    assume "y - (b + 32) < n"
    then have "unat (y - (b + 32)) < unat n" by (simp only: word_less_nat_alt)
    moreover from hb(4,5,6) n' have "unat (b + 32) + unat n \<le> 2 ^ 64" by simp
    ultimately have "unat (b + 32) \<le> unat y \<and> unat y < unat (b + 32) + unat n"
      by (rule in_range_nat)
    with hb(4) n' have r: "unat b + 32 \<le> unat y" "unat y < unat b + 32 + unat (size_f (hdrs s b))"
      by simp_all
    consider "x = b" | "x < b" | "b < x" using linorder_less_linear [of x b] by blast
    then show False
    proof cases
      case 1
      with yr r show False by simp
    next
      case 2
      from no_overlap_sorted [OF so no x b 2] a32 yr r show False by simp
    next
      case 3
      from no_overlap_sorted [OF so no b x 3] a32 yr r show False by simp
    qed
  qed
  then show "memset (mem s) (b + 32) c n y = mem s y" by (simp add: memset_def)
qed

lemma calloc_heap_inv:
  assumes "heap_inv s bs" and "unat (n * sz) < 2 ^ 62" and "calloc s n sz = Some (Ret (s', p))"
  shows "\<exists>bs'. heap_inv s' bs'"
proof -
  from assms(3) obtain s1 where m: "malloc s (n * sz) = Some (Ret (s1, p))"
    and s': "s' = s1\<lparr>mem := memset (mem s1) p 0 (n * sz)\<rparr>"
    and ok: "p \<noteq> 0 \<or> n * sz = 0"
    by (auto simp: calloc_def Let_def split: option.splits outcome.splits if_splits)
  from malloc_heap_inv [OF assms(1,2) m] show ?thesis
  proof (elim disjE conjE exE)
    assume p: "p = 0" and "s1 = s"
    with ok have "memset (mem s1) p 0 (n * sz) = mem s1" by (auto simp: memset_def)
    with \<open>s1 = s\<close> assms(1) show ?thesis by (auto simp: s')
  next
    fix bs'
    assume h: "heap_inv s1 bs'" and i: "GetBlockHeader p \<in> set bs'"
      and p: "p = GetBlockHeader p + 32" and z: "n * sz \<le> size_f (hdrs s1 (GetBlockHeader p))"
    have "\<forall>x \<in> set bs'. hdr (memset (mem s1) p 0 (n * sz)) x = hdrs s1 x"
    proof
      fix x assume "x \<in> set bs'"
      from memset_outside_headers [OF h i z this, of 0] p
      show "hdr (memset (mem s1) p 0 (n * sz)) x = hdrs s1 x" by simp
    qed
    from heap_inv_cong [OF this] h have "heap_inv s' bs'" by (simp add: s')
    then show ?thesis by blast
  qed
qed

lemma chain_next_in:
  "chain h a bs \<Longrightarrow> b \<in> set bs \<Longrightarrow> next_f (h b) \<noteq> 0 \<Longrightarrow> next_f (h b) \<in> set bs"
proof (induction bs arbitrary: a)
  case Nil
  then show ?case by simp
next
  case (Cons x xs)
  from Cons.prems(1) have c: "chain h (next_f (h x)) xs" by simp
  show ?case
  proof (cases "b = x")
    case True
    with c Cons.prems(3) show ?thesis by (cases xs) auto
  next
    case False
    with Cons.prems(2) have "b \<in> set xs" by simp
    from Cons.IH [OF c this Cons.prems(3)] show ?thesis by simp
  qed
qed

lemma reach_chain: "reach h a b \<Longrightarrow> chain h a bs \<Longrightarrow> b \<in> set bs"
proof (induction rule: reach.induct)
  case start
  then show ?case by (cases bs) auto
next
  case (step b)
  then show ?case by (simp add: chain_next_in)
qed

lemma heap_inv_aligned_heap: "heap_inv s bs \<Longrightarrow> aligned_heap s"
  by (auto simp: heap_inv_def block_list_def aligned_heap_def dest: reach_chain)

lemma heap_inv_st0: "heap_inv st0 []"
  by (simp add: heap_inv_def block_list_def within_break_def st0_def) (simp add: aligned_def)

lemma heap_inv_st3: "heap_inv st3 [0x1000, 0x11000, 0x21000]"
  by (simp add: heap_inv_def block_list_def within_break_def st3_def align_up_HEADERSIZE heap_simps)
     (simp add: aligned_def)

lemma heap_inv_st4: "heap_inv st4 [0x1000, 0x11000, 0x21000]"
  by (simp add: heap_inv_def block_list_def within_break_def st4_def align_up_HEADERSIZE heap_simps)
     (simp add: aligned_def)

subsection \<open>Zero fill\<close>

lemma calloc_zero_fill:
  "calloc s nmemb sz = Some (Ret (s', p)) \<Longrightarrow> a - p < nmemb * sz \<Longrightarrow> mem s' a = 0"
  by (auto simp: calloc_def Let_def memset_def split: option.splits outcome.splits if_splits)

lemma calloc_null:
  "calloc s nmemb sz = Some (Ret (s', 0)) \<Longrightarrow> nmemb * sz = 0"
  by (auto simp: calloc_def Let_def split: option.splits outcome.splits if_splits)

subsection \<open>The store of free\<close>

lemma load64_bytes:
  "load64 m a = of_nat (unat (m a) + 256 * (unat (m (a + 1)) + 256 * (unat (m (a + 2))
     + 256 * (unat (m (a + 3)) + 256 * (unat (m (a + 4)) + 256 * (unat (m (a + 5))
     + 256 * (unat (m (a + 6)) + 256 * unat (m (a + 7)))))))))"
proof -
  have e: "(8 :: nat) = Suc (Suc (Suc (Suc (Suc (Suc (Suc (Suc 0)))))))" by simp
  have "load_bytes m a 8 = unat (m a) + 256 * (unat (m (a + 1)) + 256 * (unat (m (a + 1 + 1))
     + 256 * (unat (m (a + 1 + 1 + 1)) + 256 * (unat (m (a + 1 + 1 + 1 + 1))
     + 256 * (unat (m (a + 1 + 1 + 1 + 1 + 1)) + 256 * (unat (m (a + 1 + 1 + 1 + 1 + 1 + 1))
     + 256 * (unat (m (a + 1 + 1 + 1 + 1 + 1 + 1 + 1)) + 256 * 0)))))))"
    unfolding e by (simp only: load_bytes.simps)
  then show ?thesis by (simp add: load64_def add.assoc)
qed

lemma list_apart:
  assumes bl: "block_list s bs" and wb: "within_break s bs"
    and x: "x \<in> set bs" and y: "y \<in> set bs" and ne: "x \<noteq> y"
  shows "apart x y"
proof -
  have a32: "unat (align_up HEADERSIZE) = 32" by (simp add: align_up_HEADERSIZE)
  from bl have so: "sorted_wrt (<) bs" and no: "no_overlap (hdrs s) bs"
    by (simp_all add: block_list_def)
  have top: "unat v + 24 \<le> 2 ^ 64" if "v \<in> set bs" for v
  proof -
    from wb that a32 have "unat v + 32 \<le> unat (brk s)" by (fastforce simp: within_break_def)
    moreover have "unat (brk s) < 2 ^ 64" using unsigned_less [of "brk s"] by simp
    ultimately show ?thesis by simp
  qed
  have one: "apart u v" if u: "u \<in> set bs" and v: "v \<in> set bs" and lt: "u < v" for u v
  proof -
    from no_overlap_sorted [OF so no u v lt] a32 have "unat u + 24 \<le> unat v" by simp
    then show ?thesis using top [OF v] by (rule apart_nat)
  qed
  from ne have "x < y \<or> y < x" by auto
  then show ?thesis using one [OF x y] one [OF y x] by (auto intro: apart_sym)
qed

lemma set_free_data_byte:
  assumes bl: "block_list s bs" and wb: "within_break s bs"
    and hb: "hb \<in> set bs" and b: "b \<in> set bs" and a: "data_byte s b a"
  shows "set_free (mem s) hb v a = mem s a"
proof -
  have a32: "unat (align_up HEADERSIZE) = 32" by (simp add: align_up_HEADERSIZE)
  from bl have so: "sorted_wrt (<) bs" and no: "no_overlap (hdrs s) bs"
    by (simp_all add: block_list_def)
  from a a32 have r: "unat b + 32 \<le> unat a" "unat a < unat b + 32 + unat (size_f (hdrs s b))"
    by (simp_all add: data_byte_def)
  from wb hb a32 have "unat hb + 32 \<le> unat (brk s)" by (fastforce simp: within_break_def)
  moreover have "unat (brk s) < 2 ^ 64" using unsigned_less [of "brk s"] by simp
  ultimately have top: "unat hb + 24 \<le> 2 ^ 64" by simp
  have "\<not> unat (a - hb) < 24"
  proof
    assume "unat (a - hb) < 24"
    from in_range_nat [OF this top] have yr: "unat hb \<le> unat a" "unat a < unat hb + 24" by simp_all
    consider "hb = b" | "hb < b" | "b < hb" using linorder_less_linear [of hb b] by blast
    then show False
    proof cases
      case 1
      with yr r show False by simp
    next
      case 2
      from no_overlap_sorted [OF so no hb b 2] a32 yr r show False by simp
    next
      case 3
      from no_overlap_sorted [OF so no b hb 3] a32 yr r show False by simp
    qed
  qed
  then show ?thesis by (simp add: set_free_apply)
qed

section \<open>Properties\<close>

subsection \<open>Null and zero arguments\<close>

text \<open>
  C9. At the public interface, \<^verbatim>\<open>realloc(NULL, k)\<close> is \<^verbatim>\<open>malloc(k)\<close>: the same result, the
  same state, the same failure to return; \<^verbatim>\<open>realloc(p, 0)\<close> with \<open>p\<close> not null is
  \<^verbatim>\<open>free(p)\<close> and returns null; \<^verbatim>\<open>malloc(0)\<close> returns null and leaves the allocator
  as it was.
\<close>

theorem null_zero_edge_cases:
  "realloc s junk 0 k = malloc s k
   \<and> (p \<noteq> 0 \<longrightarrow> realloc s junk p 0 = Some (Ret (free s p, 0)))
   \<and> malloc s 0 = Some (Ret (s, 0))"
  by (simp add: realloc_def malloc_def)

theorem null_zero_edge_cases_witness:
  "(0x1020 :: addr) \<noteq> 0
   \<and> realloc st0 0 0 16 = malloc st0 16
   \<and> realloc st0 0 0x1020 0 = Some (Ret (free st0 0x1020, 0))
   \<and> malloc st0 0 = Some (Ret (st0, 0))"
  using null_zero_edge_cases [of st0 0 16 "0x1020"] by simp

subsection \<open>What free touches\<close>

text \<open>
  C10 as stated fails. In \<open>st1\<close> the one block of the list has its 200 data bytes from
  \<open>0x1020\<close> on; \<open>0x1050\<close> points into them, \<^verbatim>\<open>GetBlockHeader(0x1050)\<close> is \<open>0x1030\<close>, and
  \<^verbatim>\<open>free(0x1050)\<close> turns the data byte at \<open>0x1038\<close> from 0 into 1. With a break that is not
  a multiple of 16 the same happens to a pointer that \<^verbatim>\<open>malloc\<close> returned: from \<open>st0_odd\<close>,
  \<^verbatim>\<open>malloc(200)\<close> lays the header at \<open>0x1008\<close> and returns \<open>0x1020\<close>,
  \<^verbatim>\<open>GetBlockHeader(0x1020)\<close> is \<open>0x1000\<close>, and \<^verbatim>\<open>free(0x1020)\<close> turns the \<^verbatim>\<open>size\<close> of the
  header at \<open>0x1008\<close> from 200 into 1.
\<close>

theorem free_frame_counterexample:
  "(0x1050 :: addr) \<noteq> 0
   \<and> block_list st1 [0x1000]
   \<and> hdrs st1 0x1000 = \<lparr>size_f = 200, free_f = 0, next_f = 0\<rparr>
   \<and> data_byte st1 0x1000 0x1038
   \<and> GetBlockHeader 0x1050 = 0x1030
   \<and> mem st1 0x1038 = 0
   \<and> mem (free st1 0x1050) 0x1038 = 1
   \<and> malloc st0_odd 200 = Some (Ret (st1_odd, 0x1020))
   \<and> GetBlockHeader 0x1020 = 0x1000
   \<and> size_f (hdrs st1_odd 0x1008) = 200
   \<and> size_f (hdrs (free st1_odd 0x1020) 0x1008) = 1"
proof -
  have g: "GetBlockHeader 0x1050 = 0x1030" "GetBlockHeader 0x1020 = 0x1000"
    by (simp_all add: GetBlockHeader_def align_down.simps)
  have "block_list st1 [0x1000]" "hdrs st1 0x1000 = \<lparr>size_f = 200, free_f = 0, next_f = 0\<rparr>"
    by (simp_all add: block_list_def st1_def)
  moreover have "data_byte st1 0x1000 0x1038"
    by (simp add: data_byte_def st1_def align_up_HEADERSIZE)
  moreover have "mem st1 0x1038 = 0" by (simp add: st1_def put_hdr_apply)
  moreover have "mem (free st1 0x1050) 0x1038 = 1"
    by (simp add: free_def g st1_def set_free_apply)
  moreover have "size_f (hdrs st1_odd 0x1008) = 200" by (simp add: st1_odd_def)
  moreover have "size_f (hdrs (free st1_odd 0x1020) 0x1008) = 1"
    by (simp add: free_def g st1_odd_def hdr_def load64_bytes set_free_apply put_hdr_apply)
  ultimately show ?thesis using g malloc_st0_odd by simp
qed

text \<open>
  C10, amended. \<^verbatim>\<open>free(NULL)\<close> changes nothing. \<^verbatim>\<open>free(p)\<close> with \<open>p\<close> not null sets the
  \<^verbatim>\<open>free\<close> flag of the header that \<^verbatim>\<open>GetBlockHeader(p)\<close> recovers, keeps that header's
  \<^verbatim>\<open>size\<close> and \<^verbatim>\<open>next\<close>, writes no byte but the four of that flag, and leaves
  \<^verbatim>\<open>BlockBase\<close>, \<^verbatim>\<open>CurrentTopBreak\<close>, \<^verbatim>\<open>CurrentFreeSpace\<close> and the break alone. When the
  headers from \<^verbatim>\<open>BlockBase\<close> satisfy the list invariant, every block ends at or below the
  break, and the recovered header is a block of the list, then every other header of the
  list is unchanged, every header of the list keeps its \<^verbatim>\<open>size\<close> and \<^verbatim>\<open>next\<close>, and every
  data byte of every block of the list is unchanged. (In a state that satisfies \<open>heap_inv\<close>
  every pointer that \<^verbatim>\<open>malloc\<close> returns recovers a block of the list: \<open>malloc_heap_inv\<close>.)
\<close>

theorem free_frame:
  "free s 0 = s
   \<and> (p \<noteq> 0 \<longrightarrow>
        free_f (hdrs (free s p) (GetBlockHeader p)) = 1
        \<and> size_f (hdrs (free s p) (GetBlockHeader p)) = size_f (hdrs s (GetBlockHeader p))
        \<and> next_f (hdrs (free s p) (GetBlockHeader p)) = next_f (hdrs s (GetBlockHeader p))
        \<and> (\<forall>a. \<not> (8 \<le> unat (a - GetBlockHeader p) \<and> unat (a - GetBlockHeader p) < 12)
                \<longrightarrow> mem (free s p) a = mem s a)
        \<and> BlockBase (free s p) = BlockBase s
        \<and> CurrentTopBreak (free s p) = CurrentTopBreak s
        \<and> CurrentFreeSpace (free s p) = CurrentFreeSpace s
        \<and> brk (free s p) = brk s \<and> brk_lo (free s p) = brk_lo s \<and> brk_hi (free s p) = brk_hi s
        \<and> (block_list s bs \<longrightarrow> within_break s bs \<longrightarrow> GetBlockHeader p \<in> set bs \<longrightarrow>
              (\<forall>b \<in> set bs. b \<noteq> GetBlockHeader p \<longrightarrow> hdrs (free s p) b = hdrs s b)
              \<and> (\<forall>b \<in> set bs. size_f (hdrs (free s p) b) = size_f (hdrs s b)
                                \<and> next_f (hdrs (free s p) b) = next_f (hdrs s b))
              \<and> (\<forall>b \<in> set bs. \<forall>a. data_byte s b a \<longrightarrow> mem (free s p) a = mem s a)))"
proof (intro conjI impI)
  show "free s 0 = s" by (simp add: free_def)
next
  assume p: "p \<noteq> 0"
  define hb where "hb = GetBlockHeader p"
  from p have f: "free s p = s\<lparr>mem := set_free (mem s) hb 1\<rparr>"
    by (simp add: free_def Let_def hb_def)
  show "free_f (hdrs (free s p) (GetBlockHeader p)) = 1"
    "size_f (hdrs (free s p) (GetBlockHeader p)) = size_f (hdrs s (GetBlockHeader p))"
    "next_f (hdrs (free s p) (GetBlockHeader p)) = next_f (hdrs s (GetBlockHeader p))"
    "BlockBase (free s p) = BlockBase s" "CurrentTopBreak (free s p) = CurrentTopBreak s"
    "CurrentFreeSpace (free s p) = CurrentFreeSpace s"
    "brk (free s p) = brk s" "brk_lo (free s p) = brk_lo s" "brk_hi (free s p) = brk_hi s"
    unfolding hb_def [symmetric] f by simp_all
  show "\<forall>a. \<not> (8 \<le> unat (a - GetBlockHeader p) \<and> unat (a - GetBlockHeader p) < 12)
                \<longrightarrow> mem (free s p) a = mem s a"
    unfolding hb_def [symmetric] f by (simp add: set_free_apply)
  assume bl: "block_list s bs" and wb: "within_break s bs" and "GetBlockHeader p \<in> set bs"
  then have hb: "hb \<in> set bs" by (simp add: hb_def)
  have other: "hdrs (free s p) b = hdrs s b" if "b \<in> set bs" "b \<noteq> hb" for b
  proof -
    from list_apart [OF bl wb hb that(1)] that(2) have "apart hb b" by simp
    then show ?thesis by (simp add: f hdr_set_free_apart)
  qed
  then show "\<forall>b \<in> set bs. b \<noteq> GetBlockHeader p \<longrightarrow> hdrs (free s p) b = hdrs s b"
    by (simp add: hb_def)
  show "\<forall>b \<in> set bs. size_f (hdrs (free s p) b) = size_f (hdrs s b)
                                \<and> next_f (hdrs (free s p) b) = next_f (hdrs s b)"
  proof
    fix b assume b: "b \<in> set bs"
    show "size_f (hdrs (free s p) b) = size_f (hdrs s b)
        \<and> next_f (hdrs (free s p) b) = next_f (hdrs s b)"
    proof (cases "b = hb")
      case True
      then show ?thesis by (simp add: f)
    next
      case False
      with other [OF b] show ?thesis by simp
    qed
  qed
  show "\<forall>b \<in> set bs. \<forall>a. data_byte s b a \<longrightarrow> mem (free s p) a = mem s a"
    using set_free_data_byte [OF bl wb hb] by (simp add: f)
qed

theorem free_frame_witness:
  "(0x1020 :: addr) \<noteq> 0
   \<and> block_list st3 [0x1000, 0x11000, 0x21000]
   \<and> within_break st3 [0x1000, 0x11000, 0x21000]
   \<and> GetBlockHeader 0x1020 = 0x1000
   \<and> free st3 0 = st3
   \<and> free st3 0x1020 = st4
   \<and> free_f (hdrs st4 0x1000) = 1
   \<and> size_f (hdrs st4 0x1000) = size_f (hdrs st3 0x1000)
   \<and> next_f (hdrs st4 0x1000) = next_f (hdrs st3 0x1000)
   \<and> mem st4 0x1007 = mem st3 0x1007
   \<and> CurrentFreeSpace st4 = CurrentFreeSpace st3
   \<and> hdrs st4 0x11000 = hdrs st3 0x11000
   \<and> hdrs st4 0x21000 = hdrs st3 0x21000
   \<and> data_byte st3 0x1000 0x1020
   \<and> mem st4 0x1020 = mem st3 0x1020"
proof -
  let ?bs = "[0x1000, 0x11000, 0x21000 :: addr]"
  have g: "GetBlockHeader 0x1020 = 0x1000" by (simp add: GetBlockHeader_def align_down.simps)
  have w: "within_break st3 ?bs"
    by (simp add: within_break_def st3_def align_up_HEADERSIZE heap_simps)
  have d: "data_byte st3 0x1000 0x1020"
    by (simp add: data_byte_def st3_def align_up_HEADERSIZE heap_simps)
  have n: "(0x1020 :: addr) \<noteq> 0" by simp
  note t = free_frame [of st3 "0x1020" ?bs, unfolded free_st3 g]
  from t n have a: "\<forall>a. \<not> (8 \<le> unat (a - 0x1000) \<and> unat (a - 0x1000) < 12)
                \<longrightarrow> mem st4 a = mem st3 a" by blast
  from a have a7: "mem st4 0x1007 = mem st3 0x1007" by simp
  from t n block_list_st3 w
  have l: "\<forall>b \<in> set ?bs. \<forall>a. data_byte st3 b a \<longrightarrow> mem st4 a = mem st3 a" by simp
  with d have a20: "mem st4 0x1020 = mem st3 0x1020" by simp
  from t n block_list_st3 w g d a7 a20 free_st3 show ?thesis by simp
qed

subsection \<open>Header recovery\<close>

text \<open>
  C1. For every pointer \<open>p\<close> that \<^verbatim>\<open>malloc\<close> returns, the data start computed again from
  \<^verbatim>\<open>GetBlockHeader(p)\<close> is \<open>p\<close>. In a state that satisfies the alignment invariant, and
  for \<open>p\<close> not null, \<^verbatim>\<open>GetBlockHeader(p)\<close> is moreover the very block \<^verbatim>\<open>malloc\<close>
  settled on. The invariant holds for a fresh allocator whose break is a multiple of 16 and
  in every state that satisfies \<open>heap_inv\<close> (\<open>heap_inv_aligned_heap\<close>), which \<^verbatim>\<open>malloc\<close>,
  \<^verbatim>\<open>calloc\<close> and \<^verbatim>\<open>free\<close> of a block of the list keep (\<open>malloc_heap_inv\<close>,
  \<open>calloc_heap_inv\<close>, \<open>free_heap_inv\<close>).
\<close>

theorem header_recovery:
  assumes "malloc s sz = Some (Ret (s', p))"
  shows "dataStart (GetBlockHeader p) = p
         \<and> (aligned_heap s \<longrightarrow> p \<noteq> 0 \<longrightarrow> malloc_block s sz = Some (s', GetBlockHeader p))"
proof (intro conjI impI)
  from assms have "aligned p" by (rule malloc_aligned)
  then show "dataStart (GetBlockHeader p) = p" by (rule dataStart_GetBlockHeader)
next
  assume inv: "aligned_heap s" and p: "p \<noteq> 0"
  from assms p obtain b where b: "malloc_block s sz = Some (s', b)" "p = dataStart b"
    by (rule malloc_success)
  from malloc_block_aligned [OF inv b(1)] have al: "aligned b" .
  then have "p = b + 32" using b(2) by (simp add: dataStart_aligned_block)
  with al have "GetBlockHeader p = b" by (simp add: GetBlockHeader_aligned_block)
  with b show "malloc_block s sz = Some (s', GetBlockHeader p)" by simp
qed

theorem header_recovery_witness:
  "malloc st0 200 = Some (Ret (st1, 0x1020)) \<and> aligned_heap st0 \<and> (0x1020 :: addr) \<noteq> 0
   \<and> dataStart (GetBlockHeader 0x1020) = 0x1020
   \<and> malloc_block st0 200 = Some (st1, GetBlockHeader 0x1020)
   \<and> GetBlockHeader 0x1020 = 0x1000
   \<and> malloc st4 50 = Some (Ret (st3, 0x1020)) \<and> aligned_heap st4
   \<and> malloc_block st4 50 = Some (st3, GetBlockHeader 0x1020)"
proof -
  have a: "aligned_heap st0" using heap_inv_st0 by (rule heap_inv_aligned_heap)
  have a4: "aligned_heap st4" using heap_inv_st4 by (rule heap_inv_aligned_heap)
  have m: "malloc st0 200 = Some (Ret (st1, 0x1020))" by (rule malloc_st0)
  have g: "GetBlockHeader 0x1020 = 0x1000" by (simp add: GetBlockHeader_def align_down.simps)
  from header_recovery [OF m] header_recovery [OF malloc_st4] a a4 m malloc_st4 g
  show ?thesis by simp
qed

subsection \<open>Alignment of returned pointers\<close>

text \<open>
  C6. Whatever \<^verbatim>\<open>malloc\<close> and \<^verbatim>\<open>calloc\<close> return is a multiple of 16, and so is what
  \<^verbatim>\<open>realloc\<close> returns when the pointer it is given is one (as every pointer the allocator
  handed out is): it returns either that pointer or the result of \<^verbatim>\<open>malloc\<close>.
\<close>

theorem returned_pointers_aligned:
  "(malloc s sz = Some (Ret (s', p)) \<longrightarrow> p mod 16 = 0)
   \<and> (calloc s n sz = Some (Ret (s', p)) \<longrightarrow> p mod 16 = 0)
   \<and> (ptr mod 16 = 0 \<longrightarrow> realloc s junk ptr sz = Some (Ret (s', p)) \<longrightarrow> p mod 16 = 0)"
  using malloc_aligned [of s sz s' p] calloc_aligned [of s n sz s' p]
    realloc_aligned [of ptr s junk sz s' p]
  by (simp only: aligned_def) blast

theorem returned_pointers_aligned_witness:
  "malloc st0 200 = Some (Ret (st1, 0x1020)) \<and> (0x1020 :: addr) mod 16 = 0"
  using returned_pointers_aligned [of st0 200 st1 "0x1020"] malloc_st0 by simp

subsection \<open>The list invariant\<close>

text \<open>
  C2 (the code departs from the claim). \<^verbatim>\<open>malloc\<close>, \<^verbatim>\<open>calloc\<close> and \<^verbatim>\<open>free\<close> of a block
  of the list keep the list invariant, for requests below \<open>2^62\<close> bytes and a break below
  \<open>2^63\<close> (\<open>malloc_heap_inv\<close>, \<open>calloc_heap_inv\<close>, \<open>free_heap_inv\<close>); \<^verbatim>\<open>realloc\<close> does not.
  The three-block state \<open>st3\<close>, reached by
  \<^verbatim>\<open>malloc(200)\<close>, \<^verbatim>\<open>malloc(100)\<close>, \<^verbatim>\<open>malloc(8)\<close>, satisfies the list invariant, and so
  does \<open>st4\<close> after \<^verbatim>\<open>free\<close> of the first block. \<^verbatim>\<open>realloc(0x1020, 65512)\<close> on \<open>st3\<close>
  grows the first block in place until its data runs 8 bytes into the second header: no
  list of headers satisfies the invariant afterwards. \<^verbatim>\<open>realloc(0x11020, 10)\<close> on \<open>st4\<close>
  links the second block to a new block whose \<^verbatim>\<open>next\<close> is itself: the headers from
  \<^verbatim>\<open>BlockBase\<close> are no finite list afterwards.
\<close>

theorem realloc_breaks_block_list:
  "block_list st3 [0x1000, 0x11000, 0x21000]
   \<and> realloc st3 junk 0x1020 65512 = Some (Ret (st3_grown, 0x1020))
   \<and> (\<forall>bs. \<not> block_list st3_grown bs)
   \<and> block_list st4 [0x1000, 0x11000, 0x21000]
   \<and> realloc st4 junk 0x11020 10 = Some (Ret (st5, 0x1020))
   \<and> (\<forall>bs. \<not> chain (hdrs st5) (BlockBase st5) bs)"
  using block_list_st3 realloc_st3_grow no_block_list_st3_grown block_list_st4 realloc_st4
    no_chain_st5 by blast

subsection \<open>First fit and reuse\<close>

text \<open>
  C7. When the headers from \<^verbatim>\<open>BlockBase\<close> form the chain \<open>bs\<close>, \<^verbatim>\<open>FindFreeBlock\<close>
  returns the first header of \<open>bs\<close> that is free and large enough, or null when there is
  none, and leaves in \<^verbatim>\<open>*last\<close> the last header it stepped over (the tail of the list
  when the scan fails). With \<open>bs\<close> in increasing address order that header has the least
  address among the fitting ones. When \<^verbatim>\<open>malloc\<close> reuses it, the only change to the
  allocator is the store that clears its \<^verbatim>\<open>free\<close> flag: its \<^verbatim>\<open>size\<close> and its \<^verbatim>\<open>next\<close>
  stay what they were.
\<close>

theorem first_fit_reuse:
  assumes "chain (hdrs s) (BlockBase s) bs"
  shows "FindFreeBlock s l sz
           = Some (last_visited (hdrs s) sz l bs, first_fit (hdrs s) sz bs)
    \<and> (first_fit (hdrs s) sz bs = 0 \<and> (\<forall>b \<in> set bs. \<not> fits (hdrs s) sz b)
         \<or> first_fit (hdrs s) sz bs \<in> set bs \<and> fits (hdrs s) sz (first_fit (hdrs s) sz bs))
    \<and> (sorted_wrt (<) bs \<longrightarrow>
          (\<forall>b \<in> set bs. fits (hdrs s) sz b \<longrightarrow> first_fit (hdrs s) sz bs \<le> b))
    \<and> (first_fit (hdrs s) sz bs = b \<longrightarrow> b \<noteq> 0 \<longrightarrow> sz \<noteq> 0 \<longrightarrow>
          malloc s sz = Some (Ret (s\<lparr>mem := set_free (mem s) b 0\<rparr>, dataStart b))
          \<and> hdr (set_free (mem s) b 0) b = (hdrs s b)\<lparr>free_f := 0\<rparr>
          \<and> size_f (hdr (set_free (mem s) b 0) b) = size_f (hdrs s b))"
proof (intro conjI impI)
  show "FindFreeBlock s l sz
           = Some (last_visited (hdrs s) sz l bs, first_fit (hdrs s) sz bs)"
    unfolding FindFreeBlock_def using assms by (rule FindFreeBlock_loop_chain)
  show "first_fit (hdrs s) sz bs = 0 \<and> (\<forall>b \<in> set bs. \<not> fits (hdrs s) sz b)
         \<or> first_fit (hdrs s) sz bs \<in> set bs \<and> fits (hdrs s) sz (first_fit (hdrs s) sz bs)"
    by (rule first_fit_cases)
  show "\<forall>b \<in> set bs. fits (hdrs s) sz b \<longrightarrow> first_fit (hdrs s) sz bs \<le> b"
    if "sorted_wrt (<) bs" using that by (simp add: first_fit_least)
  show "malloc s sz = Some (Ret (s\<lparr>mem := set_free (mem s) b 0\<rparr>, dataStart b))"
    if "first_fit (hdrs s) sz bs = b" "b \<noteq> 0" "sz \<noteq> 0"
    using assms that by (rule malloc_reuse)
  show "hdr (set_free (mem s) b 0) b = (hdrs s b)\<lparr>free_f := 0\<rparr>" by simp
  show "size_f (hdr (set_free (mem s) b 0) b) = size_f (hdrs s b)" by simp
qed

theorem first_fit_reuse_witness:
  "chain (hdrs st4) (BlockBase st4) [0x1000, 0x11000, 0x21000]
   \<and> sorted_wrt (<) [0x1000, 0x11000, 0x21000 :: addr]
   \<and> FindFreeBlock st4 0x1000 50 = Some (0x1000, 0x1000)
   \<and> first_fit (hdrs st4) 50 [0x1000, 0x11000, 0x21000] = 0x1000
   \<and> malloc st4 50 = Some (Ret (st3, 0x1020))
   \<and> size_f (hdrs st3 0x1000) = 200
   \<and> FindFreeBlock st4 0x1000 300 = Some (0x21000, 0)"
proof -
  have c: "chain (hdrs st4) (BlockBase st4) [0x1000, 0x11000, 0x21000]"
    by (simp add: st4_def heap_simps)
  have f: "first_fit (hdrs st4) 50 [0x1000, 0x11000, 0x21000] = 0x1000"
    "last_visited (hdrs st4) 50 0x1000 [0x1000, 0x11000, 0x21000] = 0x1000"
    "first_fit (hdrs st4) 300 [0x1000, 0x11000, 0x21000] = 0"
    "last_visited (hdrs st4) 300 0x1000 [0x1000, 0x11000, 0x21000] = 0x21000"
    by (simp_all add: first_fit_def last_visited_def fits_def st4_def heap_simps)
  have z: "size_f (hdrs st3 0x1000) = 200" by (simp add: st3_def heap_simps)
  from first_fit_reuse [OF c, of "0x1000" 50 "0x1000"] first_fit_reuse [OF c, of "0x1000" 300 0]
    c f z malloc_st4
  show ?thesis by simp
qed

subsection \<open>Growing in place\<close>

text \<open>
  C3 (the code departs from the claim). In \<open>st3\<close> the block of \<open>0x1020\<close> has 200 bytes and
  a successor 65536 bytes further on; \<^verbatim>\<open>realloc(0x1020, 190)\<close> needs \<open>-10\<close> bytes, which the
  gap covers, yet the call moves the data to a new block and leaves the old header's
  \<^verbatim>\<open>size\<close> at 200: line 285 compares the negative \<^verbatim>\<open>int\<close> as a \<^verbatim>\<open>size_t\<close>. In \<open>st1\<close>
  the block has no successor and the chunk has 65536 bytes from \<^verbatim>\<open>CurrentFreeSpace\<close> to
  \<^verbatim>\<open>CurrentTopBreak\<close>; \<^verbatim>\<open>realloc(0x1020, 216)\<close> needs 16 bytes and moves the data all the
  same (with 0 for the unassigned \<^verbatim>\<open>blockFreeSpace\<close>): line 284 compares the address
  \<^verbatim>\<open>CurrentFreeSpace\<close> with the bytes needed.
\<close>

theorem realloc_moves_despite_room:
  "next_f (hdrs st3 (GetBlockHeader 0x1020)) = 0x11000
   \<and> size_f (hdrs st3 (GetBlockHeader 0x1020)) = 200
   \<and> realloc st3 junk 0x1020 190 = Some (Ret (st3_moved, 0x31020))
   \<and> size_f (hdrs st3_moved (GetBlockHeader 0x1020)) = 200
   \<and> next_f (hdrs st1 (GetBlockHeader 0x1020)) = 0
   \<and> CurrentTopBreak st1 - CurrentFreeSpace st1 = 65536
   \<and> realloc st1 0 0x1020 216 = Some (Ret (st1_moved, 0x11020))"
  using realloc_st3_shrink [of junk] realloc_st1
  by (simp add: GetBlockHeader_def align_down.simps st3_def st3_moved_def st1_def heap_simps)

subsection \<open>Zero-initialised allocation\<close>

text \<open>
  C8 (the code departs from the claim). With a break that cannot move, \<^verbatim>\<open>malloc(16)\<close>
  returns null, and \<^verbatim>\<open>calloc(1, 16)\<close> then runs \<^verbatim>\<open>memset\<close> on the null pointer for 16
  bytes instead of returning null. (When \<^verbatim>\<open>calloc\<close> does return a pointer, the bytes it
  covers are zero: \<open>calloc_zero_fill\<close>.)
\<close>

theorem calloc_writes_through_null:
  "malloc st_full 16 = Some (Ret (st_full, 0)) \<and> calloc st_full 1 16 = Some Fault"
  by (simp add: eval_defs st_full_def)

subsection \<open>Carving and CurrentFreeSpace\<close>




subsection \<open>Shrinking\<close>

text \<open>
  C4 (the code departs from the claim). In \<open>st4\<close> the block of \<open>0x11020\<close> has 100 bytes
  and the successor \<open>0x21000\<close>; \<^verbatim>\<open>realloc(0x11020, 10)\<close> gives back 90 bytes, more than a
  header. The call returns, and afterwards the new block \<open>0x31000\<close> of 66 bytes is the
  successor of the header, but its own \<^verbatim>\<open>next\<close> is itself, not \<open>0x21000\<close>, its \<^verbatim>\<open>free\<close>
  flag is 0, and it lies in a new chunk, not in the tail of the shrunk block. In \<open>st3\<close>, where
  no block is free, \<^verbatim>\<open>realloc(0x1020, 100)\<close> never returns: the \<^verbatim>\<open>malloc\<close> it goes on to
  call scans the list and runs round the new block for ever. (When \<^verbatim>\<open>GetBlock\<close> fails,
  \<^verbatim>\<open>realloc\<close> stores through its null result: \<open>realloc_failed_salvage\<close>.)
\<close>

theorem realloc_salvage_self_linked:
  "GetBlockHeader 0x11020 = 0x11000
   \<and> size_f (hdrs st4 0x11000) = 100
   \<and> next_f (hdrs st4 0x11000) = 0x21000
   \<and> realloc st4 junk 0x11020 10 = Some (Ret (st5, 0x1020))
   \<and> next_f (hdrs st5 0x11000) = 0x31000
   \<and> size_f (hdrs st5 0x31000) = 66
   \<and> next_f (hdrs st5 0x31000) = 0x31000
   \<and> next_f (hdrs st5 0x31000) \<noteq> 0x21000
   \<and> free_f (hdrs st5 0x31000) = 0
   \<and> realloc st3 junk 0x1020 100 = None"
  using realloc_st4 [of junk] realloc_st3_hangs [of junk]
  by (simp add: GetBlockHeader_def align_down.simps st4_def st5_def heap_simps)

end
